theory Spec2Isabelle
  imports Complex_Main "HOL-Library.Sublist" "HOL-Library.Product_Lexorder" "HOL-Library.Log_Nat"
begin

section \<open>Strings\<close>

text \<open>
  A Python \<open>str\<close> is modelled as a \<open>string\<close> whose characters are the code points
  below 256.  On these code points \<open>str.lower\<close> maps \<open>A\<close>..\<open>Z\<close> and the Latin-1
  capitals 192..222 (without the multiplication sign 215) to the code point 32 places
  higher and leaves every other character alone; \<open>str.strip\<close> without argument removes
  the characters for which \<open>str.isspace\<close> holds: 9..13, 28..32, 133 and 160.
\<close>

definition lower_char :: "char \<Rightarrow> char" where
  "lower_char c =
     (let n = (of_char c :: nat)
      in if (65 \<le> n \<and> n \<le> 90) \<or> (192 \<le> n \<and> n \<le> 222 \<and> n \<noteq> 215)
         then char_of (n + 32) else c)"

definition lower :: "string \<Rightarrow> string" where
  "lower s = map lower_char s"

definition isspace :: "char \<Rightarrow> bool" where
  "isspace c =
     (let n = (of_char c :: nat)
      in (9 \<le> n \<and> n \<le> 13) \<or> (28 \<le> n \<and> n \<le> 32) \<or> n = 133 \<or> n = 160)"

definition strip :: "string \<Rightarrow> string" where
  "strip s = rev (dropWhile isspace (rev (dropWhile isspace s)))"

definition endswith :: "string \<Rightarrow> string \<Rightarrow> bool" where
  "endswith name sfx =
     (length sfx \<le> length name \<and> drop (length name - length sfx) name = sfx)"

text \<open>The slice \<open>name[:-k]\<close>: for \<open>k = 0\<close> Python reads it as \<open>name[:0]\<close>.\<close>

definition slice_to_neg :: "string \<Rightarrow> nat \<Rightarrow> string" where
  "slice_to_neg name k = (if k = 0 then [] else take (length name - k) name)"

fun startswith :: "string \<Rightarrow> string \<Rightarrow> bool" where
  "startswith s [] = True"
| "startswith [] (p # ps) = False"
| "startswith (c # cs) (p # ps) = (c = p \<and> startswith cs ps)"

text \<open>The operator \<open>needle in hay\<close> on strings: \<open>needle\<close> occurs contiguously.\<close>

fun str_in :: "string \<Rightarrow> string \<Rightarrow> bool" where
  "str_in needle [] = (needle = [])"
| "str_in needle (c # cs) = (startswith (c # cs) needle \<or> str_in needle cs)"

section \<open>The name normalizer\<close>

text \<open>
  The list of \<open>normalize\<close>, the inner function of \<open>calculate_name_similarity\<close>, in the
  order of the source.
\<close>

definition suffixes :: "string list" where
  "suffixes = ['' ltd'', '' ltd.'', '' limited'', '' inc'', '' inc.'', '' corp'', '' corp.'',
               '' llc'', '' pte'', '' pte.'', '' co'', '' co.'', '' group'', '' holdings'']"

text \<open>One turn of the \<open>for suffix in [...]\<close> loop: the body has no \<open>break\<close>.\<close>

definition strip_suffix :: "string \<Rightarrow> string \<Rightarrow> string" where
  "strip_suffix name sfx =
     (if endswith name sfx then strip (slice_to_neg name (length sfx)) else name)"

definition normalize_with :: "string list \<Rightarrow> string \<Rightarrow> string" where
  "normalize_with sfxs name = foldl strip_suffix (strip (lower name)) sfxs"

definition normalize :: "string \<Rightarrow> string" where
  "normalize name = normalize_with suffixes name"



section \<open>Numbers\<close>

text \<open>
  A \<open>Decimal\<close> and a \<open>float\<close> are modelled by their values, which are rational numbers.
  Arithmetic rounds: \<open>round_to b p x\<close> is \<open>x\<close> rounded to \<open>p\<close> significant digits in
  base \<open>b\<close>, ties to even.  A double has 53 significant bits (\<open>fl\<close>); the default
  \<open>decimal\<close> context has 28 significant decimal digits and rounds half to even
  (\<open>dec\<close>).  The exponent is not bounded: infinities, NaN, overflow and underflow are
  outside the model.  A float literal such as \<open>0.6\<close> denotes \<open>fl (6 / 10)\<close>.
\<close>

type_synonym decimal = rat
type_synonym float = rat

definition round_half_even_aux :: "int \<Rightarrow> rat \<Rightarrow> int" where
  "round_half_even_aux f d =
     (if d < 1 / 2 then f else if 1 / 2 < d then f + 1 else if even f then f else f + 1)"

definition round_half_even :: "rat \<Rightarrow> int" where
  "round_half_even x = round_half_even_aux \<lfloor>x\<rfloor> (x - of_int \<lfloor>x\<rfloor>)"

definition digits_of :: "int \<Rightarrow> int \<Rightarrow> int" where
  "digits_of b n = int (floorlog (nat b) (nat n))"

lemma digits_of_code [code]:
  "digits_of b n = (if 0 < n \<and> 1 < b then digits_of b (n div b) + 1 else 0)"
  unfolding digits_of_def
  by (subst compute_floorlog) (auto simp: nat_div_distrib)

definition ilog_aux :: "int \<Rightarrow> rat \<Rightarrow> int \<Rightarrow> int" where
  "ilog_aux b x l = (if of_int b powi l \<le> x then l else l - 1)"

definition ilog :: "int \<Rightarrow> rat \<Rightarrow> int" where
  "ilog b x = ilog_aux b x (digits_of b (fst (quotient_of x)) - digits_of b (snd (quotient_of x)))"

definition scale_round :: "int \<Rightarrow> int \<Rightarrow> rat \<Rightarrow> rat" where
  "scale_round b e x = sgn x * of_int (round_half_even (\<bar>x\<bar> / of_int b powi e)) * of_int b powi e"

definition round_to :: "int \<Rightarrow> int \<Rightarrow> rat \<Rightarrow> rat" where
  "round_to b p x = (if x = 0 then 0 else scale_round b (ilog b \<bar>x\<bar> - (p - 1)) x)"

text \<open>\<open>round_to\<close> goes through \<open>ilog b x\<close>, the integer part of the logarithm of \<open>x\<close> to base \<open>b\<close>.\<close>

definition fl :: "rat \<Rightarrow> float" where
  "fl x = round_to 2 53 x"

definition dec :: "rat \<Rightarrow> decimal" where
  "dec x = round_to 10 28 x"


definition fadd :: "float \<Rightarrow> float \<Rightarrow> float" where
  "fadd x y = fl (x + y)"

definition fsub :: "float \<Rightarrow> float \<Rightarrow> float" where
  "fsub x y = fl (x - y)"

definition fmul :: "float \<Rightarrow> float \<Rightarrow> float" where
  "fmul x y = fl (x * y)"

definition fdiv :: "float \<Rightarrow> float \<Rightarrow> float" where
  "fdiv x y = fl (x / y)"

text \<open>An \<open>int\<close> operand of a float operation is converted to the nearest double first.\<close>

definition float_of_int :: "int \<Rightarrow> float" where
  "float_of_int n = fl (of_int n)"

text \<open>\<open>float(d)\<close> of a \<open>Decimal\<close> is the nearest double.\<close>

definition float_of_decimal :: "decimal \<Rightarrow> float" where
  "float_of_decimal d = fl d"

text \<open>\<open>int(x)\<close> of a float truncates towards zero.\<close>

definition py_int :: "float \<Rightarrow> int" where
  "py_int x = (if 0 \<le> x then \<lfloor>x\<rfloor> else \<lceil>x\<rceil>)"

text \<open>
  The built-ins \<open>max(a, b)\<close> and \<open>min(a, b)\<close> return the first argument unless the second
  is strictly greater (smaller).
\<close>

definition py_max :: "rat \<Rightarrow> rat \<Rightarrow> rat" where
  "py_max a b = (if a < b then b else a)"

definition py_min :: "rat \<Rightarrow> rat \<Rightarrow> rat" where
  "py_min a b = (if b < a then b else a)"

definition dec_sub :: "decimal \<Rightarrow> decimal \<Rightarrow> decimal" where
  "dec_sub x y = dec (x - y)"

definition dec_abs :: "decimal \<Rightarrow> decimal" where
  "dec_abs x = dec \<bar>x\<bar>"

definition dec_div :: "decimal \<Rightarrow> decimal \<Rightarrow> decimal" where
  "dec_div x y = dec (x / y)"

text \<open>The decimal digits of an integer, as \<open>str\<close> and the f-string \<open>{n}\<close> print it.\<close>

fun digits :: "nat \<Rightarrow> string" where
  "digits n = (if n < 10 then [char_of (48 + n)] else digits (n div 10) @ [char_of (48 + n mod 10)])"

definition str_int :: "int \<Rightarrow> string" where
  "str_int i = (if i < 0 then CHR ''-'' # digits (nat (- i)) else digits (nat i))"

section \<open>The sequence matcher\<close>

text \<open>
  \<open>SequenceMatcher(None, a, b).ratio()\<close> of Python's \<open>difflib\<close>, which
  \<open>calculate_name_similarity\<close> calls: no junk predicate, the automatic junk heuristic
  switched on.  \<open>chain_b\<close> builds \<open>b2j\<close>, the positions of every character of \<open>b\<close>, and
  drops the characters that occur more than \<open>n div 100 + 1\<close> times when \<open>b\<close> has at
  least 200 characters.
\<close>

type_synonym b2j_map = "char \<Rightarrow> nat list option"
type_synonym match = "nat \<times> nat \<times> nat"

definition chain_b_add :: "b2j_map \<Rightarrow> nat \<times> char \<Rightarrow> b2j_map" where
  "chain_b_add b2j ie =
     (case ie of (i, elt) \<Rightarrow>
        b2j(elt \<mapsto> (case b2j elt of None \<Rightarrow> [] | Some indices \<Rightarrow> indices) @ [i]))"

definition purge_popular :: "nat \<Rightarrow> b2j_map \<Rightarrow> b2j_map" where
  "purge_popular n b2j =
     (if 200 \<le> n
      then (\<lambda>elt. case b2j elt of None \<Rightarrow> None
                   | Some idxs \<Rightarrow> if n div 100 + 1 < length idxs then None else Some idxs)
      else b2j)"

definition chain_b :: "string \<Rightarrow> b2j_map" where
  "chain_b b = purge_popular (length b) (foldl chain_b_add Map.empty (enumerate 0 b))"

definition isbjunk :: "char \<Rightarrow> bool" where
  "isbjunk c = False"

definition j2lenget :: "(nat \<rightharpoonup> nat) \<Rightarrow> nat \<Rightarrow> nat" where
  "j2lenget j2len j = (if j = 0 then 0 else case j2len (j - 1) of None \<Rightarrow> 0 | Some v \<Rightarrow> v)"

fun inner_loop ::
  "nat \<Rightarrow> nat \<Rightarrow> nat \<Rightarrow> (nat \<rightharpoonup> nat) \<Rightarrow> nat list \<Rightarrow> (nat \<rightharpoonup> nat) \<times> match
     \<Rightarrow> (nat \<rightharpoonup> nat) \<times> match" where
  "inner_loop i blo bhi j2len [] st = st"
| "inner_loop i blo bhi j2len (j # js) (newj2len, (besti, bestj, bestsize)) =
     (if j < blo then inner_loop i blo bhi j2len js (newj2len, (besti, bestj, bestsize))
      else if bhi \<le> j then (newj2len, (besti, bestj, bestsize))
      else inner_loop i blo bhi j2len js
             (newj2len(j \<mapsto> j2lenget j2len j + 1),
              if bestsize < j2lenget j2len j + 1
              then (i + 1 - (j2lenget j2len j + 1), j + 1 - (j2lenget j2len j + 1),
                    j2lenget j2len j + 1)
              else (besti, bestj, bestsize)))"

definition outer_step ::
  "string \<Rightarrow> b2j_map \<Rightarrow> nat \<Rightarrow> nat \<Rightarrow> (nat \<rightharpoonup> nat) \<times> match \<Rightarrow> nat
     \<Rightarrow> (nat \<rightharpoonup> nat) \<times> match" where
  "outer_step a b2j blo bhi st i =
     inner_loop i blo bhi (fst st) (case b2j (a ! i) of None \<Rightarrow> [] | Some js \<Rightarrow> js)
       (Map.empty, snd st)"

function extend_left ::
  "string \<Rightarrow> string \<Rightarrow> (char \<Rightarrow> bool) \<Rightarrow> nat \<Rightarrow> nat \<Rightarrow> match \<Rightarrow> match" where
  "extend_left a b ok alo blo (besti, bestj, bestsize) =
     (if alo < besti \<and> blo < bestj \<and> ok (b ! (bestj - 1)) \<and> a ! (besti - 1) = b ! (bestj - 1)
      then extend_left a b ok alo blo (besti - 1, bestj - 1, bestsize + 1)
      else (besti, bestj, bestsize))"
  by pat_completeness auto
termination
  by (relation "measure (\<lambda>(a, b, ok, alo, blo, besti, bestj, bestsize). besti)") auto

function extend_right ::
  "string \<Rightarrow> string \<Rightarrow> (char \<Rightarrow> bool) \<Rightarrow> nat \<Rightarrow> nat \<Rightarrow> match \<Rightarrow> match" where
  "extend_right a b ok ahi bhi (besti, bestj, bestsize) =
     (if besti + bestsize < ahi \<and> bestj + bestsize < bhi \<and> ok (b ! (bestj + bestsize))
         \<and> a ! (besti + bestsize) = b ! (bestj + bestsize)
      then extend_right a b ok ahi bhi (besti, bestj, bestsize + 1)
      else (besti, bestj, bestsize))"
  by pat_completeness auto
termination
  by (relation "measure (\<lambda>(a, b, ok, ahi, bhi, besti, bestj, bestsize). ahi - (besti + bestsize))")
     auto

definition find_longest_match ::
  "string \<Rightarrow> string \<Rightarrow> b2j_map \<Rightarrow> nat \<Rightarrow> nat \<Rightarrow> nat \<Rightarrow> nat \<Rightarrow> match" where
  "find_longest_match a b b2j alo ahi blo bhi =
     extend_right a b isbjunk ahi bhi
       (extend_left a b isbjunk alo blo
          (extend_right a b (\<lambda>c. \<not> isbjunk c) ahi bhi
             (extend_left a b (\<lambda>c. \<not> isbjunk c) alo blo
                (snd (foldl (outer_step a b2j blo bhi) (Map.empty, (alo, blo, 0)) [alo..<ahi])))))"


lemma j2lenget_le:
  "\<forall>j v. j2len j = Some v \<longrightarrow> v \<le> n \<Longrightarrow> j2lenget j2len j \<le> n"
  by (auto simp: j2lenget_def split: option.splits)

lemma inner_loop_bounds:
  assumes "alo \<le> i" "i < ahi" "\<forall>j v. j2len j = Some v \<longrightarrow> v \<le> i - alo"
    and "\<forall>j v. new j = Some v \<longrightarrow> v \<le> i + 1 - alo"
    and "alo \<le> bi" "bi + bs \<le> ahi \<or> (bs = 0 \<and> bi = alo)"
    and "inner_loop i blo bhi j2len js (new, (bi, bj, bs)) = (new', (bi', bj', bs'))"
  shows "(\<forall>j v. new' j = Some v \<longrightarrow> v \<le> i + 1 - alo) \<and> alo \<le> bi'
         \<and> (bi' + bs' \<le> ahi \<or> (bs' = 0 \<and> bi' = alo))"
  using assms(4-7)
proof (induction js arbitrary: new bi bj bs)
  case Nil
  then show ?case by simp
next
  case (Cons j js)
  let ?k = "j2lenget j2len j + 1"
  have k: "?k \<le> i + 1 - alo"
    using j2lenget_le [OF assms(3), of j] assms(1) by simp
  show ?case
  proof (cases "j < blo")
    case True
    with Cons.prems have "inner_loop i blo bhi j2len js (new, (bi, bj, bs)) = (new', (bi', bj', bs'))"
      by simp
    from Cons.IH [OF Cons.prems(1-3) this] show ?thesis .
  next
    case nlo: False
    show ?thesis
    proof (cases "bhi \<le> j")
      case True
      with nlo Cons.prems show ?thesis by simp
    next
      case False
      have new: "\<forall>j' v. (new(j \<mapsto> ?k)) j' = Some v \<longrightarrow> v \<le> i + 1 - alo"
        using Cons.prems(1) k by auto
      show ?thesis
      proof (cases "bs < ?k")
        case True
        with nlo False Cons.prems(4)
        have run: "inner_loop i blo bhi j2len js (new(j \<mapsto> ?k), (i + 1 - ?k, j + 1 - ?k, ?k))
                   = (new', (bi', bj', bs'))" by simp
        have "alo \<le> i + 1 - ?k" using k assms(1) by simp
        moreover have "i + 1 - ?k + ?k \<le> ahi \<or> (?k = 0 \<and> i + 1 - ?k = alo)"
          using k assms(1,2) by simp
        ultimately show ?thesis using Cons.IH [OF new _ _ run] by blast
      next
        case nb: False
        with nlo False Cons.prems(4)
        have run: "inner_loop i blo bhi j2len js (new(j \<mapsto> ?k), (bi, bj, bs))
                   = (new', (bi', bj', bs'))" by simp
        from Cons.IH [OF new Cons.prems(2,3) run] show ?thesis .
      qed
    qed
  qed
qed

lemma outer_loop_bounds:
  assumes "alo \<le> lo" "hi \<le> ahi"
    and "\<forall>j v. j2len j = Some v \<longrightarrow> v \<le> lo - alo"
    and "alo \<le> bi" "bi + bs \<le> ahi \<or> (bs = 0 \<and> bi = alo)"
    and "foldl (outer_step a b2j blo bhi) (j2len, (bi, bj, bs)) [lo..<hi] = (j2len', (bi', bj', bs'))"
  shows "alo \<le> bi' \<and> (bi' + bs' \<le> ahi \<or> (bs' = 0 \<and> bi' = alo))"
  using assms
proof (induction "hi - lo" arbitrary: lo j2len bi bj bs)
  case 0
  then show ?case by simp
next
  case (Suc n)
  then have lt: "lo < hi" by simp
  then have upt: "[lo..<hi] = lo # [Suc lo..<hi]" by (simp add: upt_conv_Cons)
  obtain new bi1 bj1 bs1 where
    step: "outer_step a b2j blo bhi (j2len, (bi, bj, bs)) lo = (new, (bi1, bj1, bs1))"
    by (metis prod_cases3)
  then have il: "inner_loop lo blo bhi j2len (case b2j (a ! lo) of None \<Rightarrow> [] | Some js \<Rightarrow> js)
                  (Map.empty, (bi, bj, bs)) = (new, (bi1, bj1, bs1))"
    by (simp add: outer_step_def)
  have lo_ahi: "lo < ahi" using lt Suc.prems(2) by simp
  have inv: "(\<forall>j v. new j = Some v \<longrightarrow> v \<le> lo + 1 - alo) \<and> alo \<le> bi1
         \<and> (bi1 + bs1 \<le> ahi \<or> (bs1 = 0 \<and> bi1 = alo))"
    by (rule inner_loop_bounds [OF Suc.prems(1) lo_ahi Suc.prems(3) _ Suc.prems(4,5) il]) simp
  have rest: "foldl (outer_step a b2j blo bhi) (new, (bi1, bj1, bs1)) [Suc lo..<hi]
              = (j2len', (bi', bj', bs'))"
    using Suc.prems(6) upt step by simp
  have n: "n = hi - Suc lo" using Suc.hyps(2) by simp
  have "\<forall>j v. new j = Some v \<longrightarrow> v \<le> Suc lo - alo" using inv by simp
  from Suc.hyps(1) [OF n _ Suc.prems(2) this _ _ rest] inv Suc.prems(1)
  show ?case by simp
qed

lemma extend_left_bounds:
  "alo \<le> bi \<Longrightarrow> bi + bs \<le> ahi \<or> (bs = 0 \<and> bi = alo) \<Longrightarrow>
   extend_left a b ok alo blo (bi, bj, bs) = (bi', bj', bs') \<Longrightarrow>
   alo \<le> bi' \<and> (bi' + bs' \<le> ahi \<or> (bs' = 0 \<and> bi' = alo))"
proof (induction a b ok alo blo "(bi, bj, bs)" arbitrary: bi bj bs rule: extend_left.induct)
  case (1 a b ok alo blo besti bestj bestsize)
  show ?case
  proof (cases "alo < besti \<and> blo < bestj \<and> ok (b ! (bestj - 1))
                \<and> a ! (besti - 1) = b ! (bestj - 1)")
    case True
    with "1.prems"(3)
    have run: "extend_left a b ok alo blo (besti - 1, bestj - 1, bestsize + 1) = (bi', bj', bs')"
      by simp
    have "alo \<le> besti - 1" using True by linarith
    moreover have "besti - 1 + (bestsize + 1) \<le> ahi \<or> (bestsize + 1 = 0 \<and> besti - 1 = alo)"
      using True "1.prems"(2) by auto
    ultimately show ?thesis using "1.hyps" [OF True _ _ run] by blast
  next
    case False
    with "1.prems" show ?thesis by auto
  qed
qed

lemma extend_right_bounds:
  "alo \<le> bi \<Longrightarrow> bi + bs \<le> ahi \<or> (bs = 0 \<and> bi = alo) \<Longrightarrow>
   extend_right a b ok ahi bhi (bi, bj, bs) = (bi', bj', bs') \<Longrightarrow>
   alo \<le> bi' \<and> (bi' + bs' \<le> ahi \<or> (bs' = 0 \<and> bi' = alo))"
proof (induction a b ok ahi bhi "(bi, bj, bs)" arbitrary: bi bj bs rule: extend_right.induct)
  case (1 a b ok ahi bhi besti bestj bestsize)
  show ?case
  proof (cases "besti + bestsize < ahi \<and> bestj + bestsize < bhi \<and> ok (b ! (bestj + bestsize))
                \<and> a ! (besti + bestsize) = b ! (bestj + bestsize)")
    case True
    with "1.prems"(3)
    have run: "extend_right a b ok ahi bhi (besti, bestj, bestsize + 1) = (bi', bj', bs')"
      by simp
    have "besti + (bestsize + 1) \<le> ahi \<or> (bestsize + 1 = 0 \<and> besti = alo)"
      using True by simp
    then show ?thesis using "1.hyps" [OF True "1.prems"(1) _ run] by blast
  next
    case False
    with "1.prems" show ?thesis by auto
  qed
qed

lemma find_longest_match_bounds:
  assumes "find_longest_match a b b2j alo ahi blo bhi = (i, j, k)"
  shows "alo \<le> i \<and> (i + k \<le> ahi \<or> (k = 0 \<and> i = alo))"
proof -
  obtain m0 i0 j0 k0 where
    f: "foldl (outer_step a b2j blo bhi) (Map.empty, (alo, blo, 0)) [alo..<ahi] = (m0, (i0, j0, k0))"
    by (metis prod_cases3)
  have b0: "alo \<le> i0 \<and> (i0 + k0 \<le> ahi \<or> (k0 = 0 \<and> i0 = alo))"
    by (rule outer_loop_bounds [OF _ _ _ _ _ f]) simp_all
  obtain i1 j1 k1 where e1: "extend_left a b (\<lambda>c. \<not> isbjunk c) alo blo (i0, j0, k0) = (i1, j1, k1)"
    by (metis prod_cases3)
  obtain i2 j2 k2 where e2: "extend_right a b (\<lambda>c. \<not> isbjunk c) ahi bhi (i1, j1, k1) = (i2, j2, k2)"
    by (metis prod_cases3)
  obtain i3 j3 k3 where e3: "extend_left a b isbjunk alo blo (i2, j2, k2) = (i3, j3, k3)"
    by (metis prod_cases3)
  have e4: "extend_right a b isbjunk ahi bhi (i3, j3, k3) = (i, j, k)"
    using assms f e1 e2 e3 by (simp add: find_longest_match_def)
  have b1: "alo \<le> i1 \<and> (i1 + k1 \<le> ahi \<or> (k1 = 0 \<and> i1 = alo))"
    using extend_left_bounds [OF _ _ e1] b0 by blast
  have b2: "alo \<le> i2 \<and> (i2 + k2 \<le> ahi \<or> (k2 = 0 \<and> i2 = alo))"
    using extend_right_bounds [OF _ _ e2] b1 by blast
  have b3: "alo \<le> i3 \<and> (i3 + k3 \<le> ahi \<or> (k3 = 0 \<and> i3 = alo))"
    using extend_left_bounds [OF _ _ e3] b2 by blast
  show ?thesis using extend_right_bounds [OF _ _ e4] b3 by blast
qed

type_synonym region = "nat \<times> nat \<times> nat \<times> nat"

function matching_blocks_loop ::
  "string \<Rightarrow> string \<Rightarrow> b2j_map \<Rightarrow> region list \<Rightarrow> match list \<Rightarrow> match list" where
  "matching_blocks_loop a b b2j [] matching_blocks = matching_blocks"
| "matching_blocks_loop a b b2j ((alo, ahi, blo, bhi) # queue) matching_blocks =
     (case find_longest_match a b b2j alo ahi blo bhi of (i, j, k) \<Rightarrow>
        if k \<noteq> 0
        then matching_blocks_loop a b b2j
               ((if i + k < ahi \<and> j + k < bhi then [(i + k, ahi, j + k, bhi)] else [])
                @ (if alo < i \<and> blo < j then [(alo, i, blo, j)] else []) @ queue)
               (matching_blocks @ [(i, j, k)])
        else matching_blocks_loop a b b2j queue matching_blocks)"
  by pat_completeness auto
termination
proof (relation "measure (\<lambda>(a, b, b2j, queue, mb).
                   sum_list (map (\<lambda>(alo, ahi, blo, bhi). 2 * (ahi - alo) + 1) queue))",
       goal_cases)
  case 1
  show ?case by simp
next
  case (2 a b b2j alo ahi blo bhi queue mb i y j k)
  then have "find_longest_match a b b2j alo ahi blo bhi = (i, j, k)" by simp
  from find_longest_match_bounds [OF this] \<open>k \<noteq> 0\<close>
  have "alo \<le> i" "i + k \<le> ahi" by auto
  with \<open>k \<noteq> 0\<close> show ?case by auto
next
  case 3
  then show ?case by simp
qed


text \<open>
  \<open>get_matching_blocks\<close>: the loop above on the whole of \<open>a\<close> and \<open>b\<close> (the queue is a
  stack, its top at the head of the list), then the sort, the merge of adjacent blocks and
  the final dummy block.
\<close>

fun collapse_loop :: "match \<Rightarrow> match list \<Rightarrow> match list \<Rightarrow> match list \<times> match" where
  "collapse_loop (i1, j1, k1) non_adjacent [] = (non_adjacent, (i1, j1, k1))"
| "collapse_loop (i1, j1, k1) non_adjacent ((i2, j2, k2) # rest) =
     (if i1 + k1 = i2 \<and> j1 + k1 = j2
      then collapse_loop (i1, j1, k1 + k2) non_adjacent rest
      else collapse_loop (i2, j2, k2)
             (if k1 \<noteq> 0 then non_adjacent @ [(i1, j1, k1)] else non_adjacent) rest)"

definition get_matching_blocks :: "string \<Rightarrow> string \<Rightarrow> match list" where
  "get_matching_blocks a b =
     (case collapse_loop (0, 0, 0) []
             (sort (matching_blocks_loop a b (chain_b b) [(0, length a, 0, length b)] []))
      of (non_adjacent, (i1, j1, k1)) \<Rightarrow>
        (if k1 \<noteq> 0 then non_adjacent @ [(i1, j1, k1)] else non_adjacent)
        @ [(length a, length b, 0)])"

definition calculate_ratio :: "nat \<Rightarrow> nat \<Rightarrow> float" where
  "calculate_ratio matches len =
     (if len \<noteq> 0 then fdiv (fmul 2 (float_of_int (int matches))) (float_of_int (int len)) else 1)"

definition ratio :: "string \<Rightarrow> string \<Rightarrow> float" where
  "ratio a b =
     calculate_ratio (sum_list (map (\<lambda>(i, j, k). k) (get_matching_blocks a b)))
       (length a + length b)"

section \<open>Similarity scores\<close>

definition calculate_name_similarity :: "string \<Rightarrow> string \<Rightarrow> float" where
  "calculate_name_similarity name1 name2 =
     (let norm1 = normalize name1;
          norm2 = normalize name2;
          similarity = ratio norm1 norm2
      in if str_in norm1 norm2 \<or> str_in norm2 norm1
         then py_min 1 (fadd similarity (fl (2 / 10)))
         else similarity)"

definition calculate_amount_similarity :: "decimal \<Rightarrow> decimal \<Rightarrow> float" where
  "calculate_amount_similarity amount1 amount2 =
     (if amount1 = amount2 then 1
      else if amount2 = 0 then 0
      else let diff = dec_abs (dec_sub amount1 amount2);
               percentage_diff = float_of_decimal (dec_div diff amount2)
           in py_max 0 (fsub 1 (fmul percentage_diff 2)))"

section \<open>Records\<close>

type_synonym date = "nat \<times> nat \<times> nat"

record Invoice =
  invoice_id :: string
  client_name :: string
  matter_id :: string
  invoice_date :: date
  invoice_amount :: decimal
  currency :: string
  due_date :: date
  status :: string

record BankTransaction =
  value_date :: date
  reference_no :: string
  description :: string
  payer_name :: string
  amount :: decimal
  currency :: string

record Remittance =
  remittance_id :: string
  payer_name :: string
  invoice_reference :: string
  payment_amount :: decimal
  notes_text :: string

record MatchedPosting =
  payment_ref :: string
  payer_name :: string
  matched_invoice :: string
  match_type :: string
  confidence :: string
  posting_status :: string
  bank_amount :: "decimal option"
  invoice_amount :: "decimal option"
  amount_difference :: "decimal option"

section \<open>The matching engine\<close>

text \<open>The first loop of \<open>match_by_invoice_reference\<close>: it stops at the first hit.\<close>

fun find_remittance :: "BankTransaction \<Rightarrow> Remittance list \<Rightarrow> Remittance option" where
  "find_remittance transaction [] = None"
| "find_remittance transaction (remittance # remittances) =
     (if fl (6 / 10) < calculate_name_similarity (BankTransaction.payer_name transaction)
                        (Remittance.payer_name remittance)
         \<and> fl (8 / 10) < calculate_amount_similarity (amount transaction)
                            (payment_amount remittance)
      then Some remittance
      else find_remittance transaction remittances)"

text \<open>The second loop: the first invoice with the referenced id.\<close>

fun find_invoice :: "string \<Rightarrow> Invoice list \<Rightarrow> Invoice option" where
  "find_invoice invoice_ref [] = None"
| "find_invoice invoice_ref (invoice # invoices) =
     (if invoice_id invoice = invoice_ref then Some invoice
      else find_invoice invoice_ref invoices)"

definition classify_reference ::
  "BankTransaction \<Rightarrow> Invoice \<Rightarrow> string \<times> float" where
  "classify_reference transaction matching_invoice =
     (let name_sim = calculate_name_similarity (BankTransaction.payer_name transaction)
                       (client_name matching_invoice);
          amount_sim = calculate_amount_similarity (amount transaction)
                         (Invoice.invoice_amount matching_invoice)
      in if fl (95 / 100) < amount_sim
         then (''Exact'',
               fdiv (float_of_int (min 99 (85 + py_int (fmul amount_sim (float_of_int 10))
                                          + py_int (fmul name_sim (float_of_int 5))))) 100)
         else (''Reference'',
               fdiv (float_of_int (min 98 (80 + py_int (fmul amount_sim (float_of_int 10))
                                          + py_int (fmul name_sim (float_of_int 5))))) 100))"

definition match_by_invoice_reference ::
  "BankTransaction \<Rightarrow> Remittance list \<Rightarrow> Invoice list
     \<Rightarrow> (Invoice \<times> Remittance \<times> string \<times> float) option" where
  "match_by_invoice_reference transaction remittances invoices =
     (case find_remittance transaction remittances of
        None \<Rightarrow> None
      | Some matching_remittance \<Rightarrow>
          (case find_invoice (invoice_reference matching_remittance) invoices of
             None \<Rightarrow> None
           | Some matching_invoice \<Rightarrow>
               (case classify_reference transaction matching_invoice of
                  (mtype, conf) \<Rightarrow>
                    Some (matching_invoice, matching_remittance, mtype, conf))))"

text \<open>
  The loop of \<open>fuzzy_match\<close>.  \<open>best_match\<close> and \<open>best_match_type\<close> are assigned together,
  so the state holds them as one optional pair next to \<open>best_score\<close>.
\<close>

definition fuzzy_match_type :: "float \<Rightarrow> float \<Rightarrow> string" where
  "fuzzy_match_type name_sim amount_sim =
     (if fl (8 / 10) < name_sim \<and> fl (9 / 10) < amount_sim then ''Fuzzy (name)''
      else if fl (85 / 100) < amount_sim then ''Fuzzy (amount)''
      else ''Contextual'')"

definition combined_score :: "BankTransaction \<Rightarrow> Invoice \<Rightarrow> float" where
  "combined_score transaction invoice =
     fadd (fmul (calculate_name_similarity (BankTransaction.payer_name transaction)
                   (client_name invoice)) (fl (4 / 10)))
          (fmul (calculate_amount_similarity (amount transaction)
                   (Invoice.invoice_amount invoice)) (fl (6 / 10)))"

definition fuzzy_step ::
  "BankTransaction \<Rightarrow> string set \<Rightarrow> (Invoice \<times> string) option \<times> float \<Rightarrow> Invoice
     \<Rightarrow> (Invoice \<times> string) option \<times> float" where
  "fuzzy_step transaction exclude_invoice_ids st invoice =
     (if invoice_id invoice \<in> exclude_invoice_ids then st
      else if BankTransaction.currency transaction \<noteq> Invoice.currency invoice then st
      else if snd st < combined_score transaction invoice
              \<and> fl (7 / 10) < combined_score transaction invoice
           then (Some (invoice,
                       fuzzy_match_type
                         (calculate_name_similarity (BankTransaction.payer_name transaction)
                            (client_name invoice))
                         (calculate_amount_similarity (amount transaction)
                            (Invoice.invoice_amount invoice))),
                 combined_score transaction invoice)
           else st)"

definition fuzzy_match ::
  "BankTransaction \<Rightarrow> Invoice list \<Rightarrow> string set option \<Rightarrow> (Invoice \<times> string \<times> float) option" where
  "fuzzy_match transaction invoices exclude_invoice_ids =
     (case foldl (fuzzy_step transaction
                    (case exclude_invoice_ids of None \<Rightarrow> {} | Some ids \<Rightarrow> ids))
             (None, 0) invoices
      of (None, best_score) \<Rightarrow> None
       | (Some (best_match, best_match_type), best_score) \<Rightarrow>
           Some (best_match, best_match_type,
                 fdiv (float_of_int (min 98 (py_int (fmul best_score (float_of_int 100))))) 100))"

definition posting ::
  "BankTransaction \<Rightarrow> Invoice \<Rightarrow> string \<Rightarrow> float \<Rightarrow> MatchedPosting" where
  "posting transaction invoice mtype conf =
     \<lparr> payment_ref = reference_no transaction,
       payer_name = BankTransaction.payer_name transaction,
       matched_invoice = invoice_id invoice,
       match_type = mtype,
       confidence = str_int (py_int (fmul conf (float_of_int 100))) @ ''%'',
       posting_status = ''Auto-posted'',
       bank_amount = Some (amount transaction),
       invoice_amount = Some (Invoice.invoice_amount invoice),
       amount_difference = Some (dec_sub (amount transaction) (Invoice.invoice_amount invoice)) \<rparr>"

definition match_payment_to_invoice ::
  "BankTransaction \<Rightarrow> Remittance list \<Rightarrow> Invoice list \<Rightarrow> MatchedPosting option" where
  "match_payment_to_invoice transaction remittances invoices =
     (case match_by_invoice_reference transaction remittances invoices of
        Some (invoice, remittance, mtype, conf) \<Rightarrow> Some (posting transaction invoice mtype conf)
      | None \<Rightarrow>
          (case fuzzy_match transaction invoices None of
             Some (invoice, mtype, conf) \<Rightarrow> Some (posting transaction invoice mtype conf)
           | None \<Rightarrow> None))"

section \<open>Notions used in the statements\<close>

text \<open>
  The test of the first loop of \<open>match_by_invoice_reference\<close>, in the words of the
  specification: name similarity above 0.6 and amount similarity above 0.8.
\<close>

definition clears_thresholds :: "BankTransaction \<Rightarrow> Remittance \<Rightarrow> bool" where
  "clears_thresholds transaction remittance =
     (fl (6 / 10) < calculate_name_similarity (BankTransaction.payer_name transaction)
                      (Remittance.payer_name remittance)
      \<and> fl (8 / 10) < calculate_amount_similarity (amount transaction)
                          (payment_amount remittance))"

text \<open>Two runs differ only in currency values when they agree after the currencies are erased.\<close>

definition erase_invoice_currency :: "Invoice \<Rightarrow> Invoice" where
  "erase_invoice_currency invoice = invoice\<lparr>Invoice.currency := []\<rparr>"

definition erase_transaction_currency :: "BankTransaction \<Rightarrow> BankTransaction" where
  "erase_transaction_currency transaction = transaction\<lparr>BankTransaction.currency := []\<rparr>"

definition erase_result_currency ::
  "Invoice \<times> Remittance \<times> string \<times> float \<Rightarrow> Invoice \<times> Remittance \<times> string \<times> float" where
  "erase_result_currency res =
     (case res of (invoice, remittance, mtype, conf) \<Rightarrow>
        (erase_invoice_currency invoice, remittance, mtype, conf))"

text \<open>
  A measure for the proofs about the main loop of \<open>find_longest_match\<close>:
  \<open>indexed_run b2j a i\<close> is the number of consecutive characters of \<open>a\<close> just before
  position \<open>i\<close> that have an entry in \<open>b2j\<close>.
\<close>

fun indexed_run :: "b2j_map \<Rightarrow> string \<Rightarrow> nat \<Rightarrow> nat" where
  "indexed_run b2j a 0 = 0"
| "indexed_run b2j a (Suc i) = (if b2j (a ! i) = None then 0 else indexed_run b2j a i + 1)"

section \<open>A fixture\<close>

text \<open>
  The end-to-end scenario of the specification.  The fields that the scenario leaves open
  are filled with arbitrary values; the engine does not read them.
\<close>

definition acme_transaction :: BankTransaction where
  "acme_transaction =
     \<lparr> value_date = (2024, 1, 15), reference_no = ''TXN-1'', description = ''Wire transfer'',
       payer_name = ''Acme Holdings'', amount = 1000, currency = ''USD'' \<rparr>"

definition acme_remittance :: Remittance where
  "acme_remittance =
     \<lparr> remittance_id = ''REM-1'', payer_name = ''Acme'', invoice_reference = ''INV-100'',
       payment_amount = 1000, notes_text = '''' \<rparr>"

definition acme_invoice :: Invoice where
  "acme_invoice =
     \<lparr> invoice_id = ''INV-100'', client_name = ''Acme Corp'', matter_id = ''M-1'',
       invoice_date = (2024, 1, 1), invoice_amount = 1000, currency = ''USD'',
       due_date = (2024, 1, 31), status = ''Open'' \<rparr>"

section \<open>Properties of the name normalizer\<close>






section \<open>Properties of rounding\<close>

lemma digits_of_bounds:
  assumes "0 < n" "1 < b"
  shows "1 \<le> digits_of b n"
    and "(of_int b :: rat) powi (digits_of b n - 1) \<le> of_int n"
    and "of_int n < (of_int b :: rat) powi digits_of b n"
proof -
  let ?f = "floorlog (nat b) (nat n)"
  have fb: "nat b ^ (?f - 1) \<le> nat n \<and> nat n < nat b ^ ?f"
    by (rule floorlog_bounds) (use assms in auto)
  have f1: "1 \<le> ?f"
  proof (rule ccontr)
    assume "\<not> 1 \<le> ?f"
    then have "?f = 0" by simp
    with fb assms show False by simp
  qed
  then show "1 \<le> digits_of b n" by (simp add: digits_of_def)
  have "int (nat b ^ (?f - 1)) \<le> int (nat n)"
    using fb of_nat_le_iff [of "nat b ^ (?f - 1)" "nat n", where ?'a = int] by blast
  then have "b ^ (?f - 1) \<le> n" using assms by simp
  then have "(of_int (b ^ (?f - 1)) :: rat) \<le> of_int n" by (simp only: of_int_le_iff)
  moreover have "digits_of b n - 1 = int (?f - 1)" using f1 by (simp add: digits_of_def)
  ultimately show "(of_int b :: rat) powi (digits_of b n - 1) \<le> of_int n" by simp
  have "int (nat n) < int (nat b ^ ?f)"
    using fb of_nat_less_iff [of "nat n" "nat b ^ ?f", where ?'a = int] by blast
  then have "n < b ^ ?f" using assms by simp
  then have "(of_int n :: rat) < of_int (b ^ ?f)" by (simp only: of_int_less_iff)
  then show "of_int n < (of_int b :: rat) powi digits_of b n" by (simp add: digits_of_def)
qed

lemma ilog_bounds:
  assumes "0 < x" "1 < b"
  shows "of_int b powi ilog b x \<le> x" and "x < of_int b powi (ilog b x + 1)"
proof -
  let ?B = "of_int b :: rat"
  have B: "1 < ?B" using assms(2) by simp
  obtain n d where q: "quotient_of x = (n, d)" by (cases "quotient_of x")
  then have d: "0 < d" and x: "x = of_int n / of_int d"
    by (simp_all add: quotient_of_denom_pos quotient_of_div)
  have n: "0 < n" using assms(1) d x by (simp add: zero_less_divide_iff)
  let ?u = "digits_of b n" and ?v = "digits_of b d"
  note nb = digits_of_bounds [OF n assms(2)] and db = digits_of_bounds [OF d assms(2)]
  have pos: "\<And>k. 0 < ?B powi k" using B by simp
  have up: "x < ?B powi (?u - ?v + 1)"
  proof -
    have "of_int n / of_int d < ?B powi ?u / ?B powi (?v - 1)"
      by (rule frac_less) (use n nb db pos in auto)
    also have "\<dots> = ?B powi (?u - (?v - 1))" using B by (subst power_int_diff) auto
    finally show ?thesis using x by (simp add: algebra_simps)
  qed
  have lo: "?B powi (?u - ?v - 1) \<le> x"
  proof -
    have "?B powi (?u - 1) / ?B powi ?v \<le> of_int n / of_int d"
      by (rule frac_le) (use n d nb db pos in \<open>auto simp: less_imp_le\<close>)
    moreover have "?B powi (?u - 1) / ?B powi ?v = ?B powi (?u - 1 - ?v)"
      using B by (subst power_int_diff) auto
    ultimately show ?thesis using x by (simp add: algebra_simps)
  qed
  have il: "ilog b x = (if ?B powi (?u - ?v) \<le> x then ?u - ?v else ?u - ?v - 1)"
    by (simp add: ilog_def ilog_aux_def q)
  show "?B powi ilog b x \<le> x" using il lo by auto
  show "x < ?B powi (ilog b x + 1)" using il up by (auto simp: not_le)
qed

lemma ilog_unique:
  assumes "1 < b" "of_int b powi l \<le> x" "x < of_int b powi (l + 1)"
  shows "ilog b x = l"
proof -
  let ?B = "of_int b :: rat"
  have B: "1 < ?B" using assms(1) by simp
  have "0 < ?B powi l" using B by simp
  then have x: "0 < x" using assms(2) by simp
  note ib = ilog_bounds [OF x assms(1)]
  have "\<not> ilog b x < l"
  proof
    assume "ilog b x < l"
    then have "?B powi (ilog b x + 1) \<le> ?B powi l"
      using B by (intro power_int_increasing) auto
    with ib(2) assms(2) show False by simp
  qed
  moreover have "\<not> l < ilog b x"
  proof
    assume "l < ilog b x"
    then have "?B powi (l + 1) \<le> ?B powi ilog b x"
      using B by (intro power_int_increasing) auto
    with ib(1) assms(3) show False by simp
  qed
  ultimately show ?thesis by simp
qed

lemma ilog_mono:
  assumes "1 < b" "0 < x" "x \<le> y"
  shows "ilog b x \<le> ilog b y"
proof (rule ccontr)
  let ?B = "of_int b :: rat"
  assume "\<not> ilog b x \<le> ilog b y"
  then have "?B powi (ilog b y + 1) \<le> ?B powi ilog b x"
    using assms(1) by (intro power_int_increasing) auto
  moreover have "?B powi ilog b x \<le> x" using ilog_bounds(1) [OF assms(2,1)] .
  moreover have "y < ?B powi (ilog b y + 1)" using ilog_bounds(2) [of y b] assms by simp
  ultimately show False using assms(3) by simp
qed

lemma round_half_even_of_int [simp]: "round_half_even (of_int n) = n"
  by (simp add: round_half_even_def round_half_even_aux_def)

lemma round_half_even_range:
  "\<lfloor>x\<rfloor> \<le> round_half_even x \<and> round_half_even x \<le> \<lfloor>x\<rfloor> + 1"
  by (simp add: round_half_even_def round_half_even_aux_def)

lemma round_half_even_mono:
  assumes "x \<le> y"
  shows "round_half_even x \<le> round_half_even y"
proof (cases "\<lfloor>x\<rfloor> = \<lfloor>y\<rfloor>")
  case True
  then show ?thesis using assms
    by (auto simp: round_half_even_def round_half_even_aux_def)
next
  case False
  then have "\<lfloor>x\<rfloor> < \<lfloor>y\<rfloor>" using floor_mono [OF assms] by simp
  then show ?thesis
    using round_half_even_range [of x] round_half_even_range [of y] by linarith
qed


lemma round_to_zero [simp]: "round_to b p 0 = 0"
  by (simp add: round_to_def)

lemma round_to_minus: "round_to b p (- x) = - round_to b p x"
  by (simp add: round_to_def scale_round_def sgn_minus)

lemma round_to_pos_eq:
  "0 < x \<Longrightarrow> round_to b p x =
     of_int (round_half_even (x / of_int b powi (ilog b x - (p - 1))))
     * of_int b powi (ilog b x - (p - 1))"
  by (simp add: round_to_def scale_round_def)

text \<open>A value whose scaled significand is an integer is not changed.\<close>

lemma round_to_exact:
  assumes "0 < x" "x / of_int b powi (ilog b x - (p - 1)) = of_int k" "1 < b"
  shows "round_to b p x = x"
proof -
  let ?s = "of_int b powi (ilog b x - (p - 1)) :: rat"
  have "0 < (of_int b :: rat)" using assms(3) by simp
  then have "0 < ?s" by (rule zero_less_power_int)
  then have "?s \<noteq> 0" by (metis less_irrefl)
  then have "x = of_int k * ?s" using assms(2) by (simp add: field_simps)
  then show ?thesis using assms by (simp add: round_to_pos_eq)
qed

lemma round_to_representable:
  assumes "1 < b" "1 \<le> p" "b ^ nat (p - 1) \<le> m" "m < b ^ nat p"
  shows "round_to b p (of_int m * of_int b powi e) = of_int m * of_int b powi e"
proof -
  let ?B = "of_int b :: rat"
  let ?x = "of_int m * ?B powi e"
  have B: "1 < ?B" "?B \<noteq> 0" using assms(1) by simp_all
  have pe: "0 < ?B powi e" using B by simp
  have "0 < b ^ nat (p - 1)" using assms(1) by simp
  then have m: "0 < m" using assms(3) by linarith
  have x: "0 < ?x" using m pe by simp
  have "?B powi (p - 1) = of_int (b ^ nat (p - 1))" using assms(2) by (simp add: power_int_def)
  also have "\<dots> \<le> of_int m" using assms(3) by (simp only: of_int_le_iff)
  finally have "?B powi (p - 1) * ?B powi e \<le> ?x" using pe by simp
  then have lo: "?B powi (e + p - 1) \<le> ?x"
    using B by (simp add: power_int_add [symmetric] algebra_simps)
  have "of_int m < (of_int (b ^ nat p) :: rat)" using assms(4) by (simp only: of_int_less_iff)
  also have "\<dots> = ?B powi p" using assms(2) by (simp add: power_int_def)
  finally have "?x < ?B powi p * ?B powi e" using pe by simp
  then have hi: "?x < ?B powi (e + p - 1 + 1)"
    using B by (simp add: power_int_add [symmetric] algebra_simps)
  have il: "ilog b ?x = e + p - 1" by (rule ilog_unique [OF assms(1) lo hi])
  have ee: "ilog b ?x - (p - 1) = e" by (simp add: il)
  have sne: "?B powi e \<noteq> 0" using pe by (metis less_irrefl)
  have "?x / ?B powi e = of_int m" using sne by (rule nonzero_mult_div_cancel_right)
  then have "?x / ?B powi (ilog b ?x - (p - 1)) = of_int m" by (simp only: ee)
  from round_to_exact [OF x this assms(1)] show ?thesis .
qed

lemma round_to_range:
  assumes "1 < b" "1 \<le> p" "0 < x"
  shows "of_int b powi ilog b x \<le> round_to b p x"
    and "round_to b p x \<le> of_int b powi (ilog b x + 1)"
    and "\<exists>k. b ^ nat (p - 1) \<le> k \<and> k \<le> b ^ nat p
             \<and> round_to b p x = of_int k * of_int b powi (ilog b x - (p - 1))"
proof -
  let ?B = "of_int b :: rat"
  let ?e = "ilog b x - (p - 1)"
  let ?s = "x / ?B powi ?e"
  let ?k = "round_half_even ?s"
  have B: "1 < ?B" "?B \<noteq> 0" using assms(1) by simp_all
  have pe: "0 < ?B powi ?e" using B by simp
  note ib = ilog_bounds [OF assms(3,1)]
  have p1: "?B powi (p - 1) = of_int (b ^ nat (p - 1))" using assms(2) by (simp add: power_int_def)
  have p2: "?B powi p = of_int (b ^ nat p)" using assms(2) by (simp add: power_int_def)
  have e1: "?B powi (p - 1) * ?B powi ?e = ?B powi ilog b x"
    using B by (simp add: power_int_add [symmetric])
  then have s_lo: "?B powi (p - 1) \<le> ?s" using ib(1) pe by (simp add: pos_le_divide_eq)
  have e2: "?B powi p * ?B powi ?e = ?B powi (ilog b x + 1)"
    using B by (simp add: power_int_add [symmetric] algebra_simps)
  then have s_hi: "?s \<le> ?B powi p" using ib(2) pe by (simp add: pos_divide_le_eq less_imp_le)
  have "of_int (b ^ nat (p - 1)) \<le> ?s" using s_lo by (simp only: p1)
  from round_half_even_mono [OF this]
  have k_lo: "b ^ nat (p - 1) \<le> ?k" by (simp only: round_half_even_of_int)
  have "?s \<le> of_int (b ^ nat p)" using s_hi by (simp only: p2)
  from round_half_even_mono [OF this]
  have k_hi: "?k \<le> b ^ nat p" by (simp only: round_half_even_of_int)
  have r: "round_to b p x = of_int ?k * ?B powi ?e" using assms(3) by (simp add: round_to_pos_eq)
  show "\<exists>k. b ^ nat (p - 1) \<le> k \<and> k \<le> b ^ nat p \<and> round_to b p x = of_int k * ?B powi ?e"
    using k_lo k_hi r by blast
  have "?B powi ilog b x = ?B powi (p - 1) * ?B powi ?e" by (rule e1 [symmetric])
  also have "\<dots> = of_int (b ^ nat (p - 1)) * ?B powi ?e" by (simp only: p1)
  also have "\<dots> \<le> of_int ?k * ?B powi ?e"
    using k_lo pe by (simp only: mult_le_cancel_right_pos of_int_le_iff)
  finally show "?B powi ilog b x \<le> round_to b p x" using r by simp
  have "of_int ?k * ?B powi ?e \<le> of_int (b ^ nat p) * ?B powi ?e"
    using k_hi pe by (simp only: mult_le_cancel_right_pos of_int_le_iff)
  also have "\<dots> = ?B powi (ilog b x + 1)" using e2 p2 by simp
  finally show "round_to b p x \<le> ?B powi (ilog b x + 1)" using r by simp
qed

lemma round_to_pos:
  assumes "1 < b" "1 \<le> p" "0 < x"
  shows "0 < round_to b p x"
proof -
  have "0 < (of_int b :: rat)" using assms(1) by simp
  then have "0 < (of_int b :: rat) powi ilog b x" by (rule zero_less_power_int)
  with round_to_range(1) [OF assms] show ?thesis by linarith
qed

lemma round_to_mono_pos:
  assumes "1 < b" "1 \<le> p" "0 < x" "x \<le> y"
  shows "round_to b p x \<le> round_to b p y"
proof (cases "ilog b x = ilog b y")
  case True
  let ?s = "of_int b powi (ilog b y - (p - 1)) :: rat"
  have s: "0 < ?s" using assms(1) by simp
  then have "x / ?s \<le> y / ?s" using assms(4) by (simp add: divide_right_mono)
  from round_half_even_mono [OF this] s
  have "of_int (round_half_even (x / ?s)) * ?s \<le> of_int (round_half_even (y / ?s)) * ?s"
    by (simp only: mult_le_cancel_right_pos of_int_le_iff)
  then show ?thesis using assms True by (simp add: round_to_pos_eq)
next
  case False
  have y: "0 < y" using assms by simp
  from False ilog_mono [OF assms(1,3,4)] have "ilog b x + 1 \<le> ilog b y" by simp
  then have "(of_int b :: rat) powi (ilog b x + 1) \<le> of_int b powi ilog b y"
    using assms(1) by (intro power_int_increasing) auto
  with round_to_range(2) [OF assms(1,2,3)] round_to_range(1) [OF assms(1,2) y]
  show ?thesis by simp
qed

lemma round_to_mono:
  assumes "1 < b" "1 \<le> p" "x \<le> y"
  shows "round_to b p x \<le> round_to b p y"
proof -
  consider "0 < x" | "x \<le> 0" "0 \<le> y" | "y < 0" by linarith
  then show ?thesis
  proof cases
    case 1
    then show ?thesis using round_to_mono_pos assms by simp
  next
    case 2
    have "round_to b p x \<le> 0"
    proof (cases "x = 0")
      case False
      with 2 have "0 < - x" by simp
      from round_to_pos [OF assms(1,2) this] show ?thesis by (simp add: round_to_minus)
    qed simp
    moreover have "0 \<le> round_to b p y"
    proof (cases "y = 0")
      case False
      with 2 have "0 < y" by simp
      from round_to_pos [OF assms(1,2) this] show ?thesis by simp
    qed simp
    ultimately show ?thesis by simp
  next
    case 3
    then have "0 < - y" "- y \<le> - x" using assms(3) by simp_all
    from round_to_mono_pos [OF assms(1,2) this] show ?thesis by (simp add: round_to_minus)
  qed
qed

lemma round_to_idem:
  assumes "1 < b" "1 \<le> p"
  shows "round_to b p (round_to b p x) = round_to b p x"
proof -
  have pos: "round_to b p (round_to b p x) = round_to b p x" if x: "0 < x" for x
  proof -
    let ?B = "of_int b :: rat"
    have B: "?B \<noteq> 0" using assms(1) by simp
    from round_to_range(3) [OF assms x] obtain k where
      k: "b ^ nat (p - 1) \<le> k" "k \<le> b ^ nat p"
         "round_to b p x = of_int k * ?B powi (ilog b x - (p - 1))" by blast
    show ?thesis
    proof (cases "k = b ^ nat p")
      case False
      with k(2) have "k < b ^ nat p" by simp
      from round_to_representable [OF assms k(1) this] k(3) show ?thesis by simp
    next
      case True
      have "nat p = Suc (nat (p - 1))" using assms(2) by linarith
      then have bp: "b ^ nat p = b ^ nat (p - 1) * b" by simp
      define e where "e = ilog b x - (p - 1)"
      have "?B powi (e + 1) = ?B powi e * ?B" using B by (simp add: power_int_add)
      moreover have "(of_int k :: rat) = of_int (b ^ nat (p - 1)) * ?B"
        using True bp by simp
      ultimately have "round_to b p x = of_int (b ^ nat (p - 1)) * ?B powi (e + 1)"
        using k(3) by (simp add: e_def)
      moreover have "b ^ nat (p - 1) < b ^ nat p"
        using assms by (intro power_strict_increasing) linarith+
      ultimately show ?thesis
        using round_to_representable [OF assms order_refl, of "e + 1"] by simp
    qed
  qed
  consider "0 < x" | "x = 0" | "0 < - x" by linarith
  then show ?thesis
  proof cases
    case 3
    from pos [OF this] show ?thesis by (simp add: round_to_minus)
  qed (simp_all add: pos)
qed

lemma round_to_scale:
  assumes "1 < b"
  shows "round_to b p (x * of_int b) = round_to b p x * of_int b"
proof -
  let ?B = "of_int b :: rat"
  have B: "1 < ?B" "?B \<noteq> 0" "0 < ?B" using assms by simp_all
  have pos: "round_to b p (x * ?B) = round_to b p x * ?B" if x: "0 < x" for x
  proof -
    note ib = ilog_bounds [OF x assms]
    have "?B powi (ilog b x + 1) \<le> x * ?B"
      using ib(1) B by (simp add: power_int_add)
    moreover have "x * ?B < ?B powi (ilog b x + 1 + 1)"
      using ib(2) B by (subst power_int_add [of _ "ilog b x + 1" 1]) auto
    ultimately have il: "ilog b (x * ?B) = ilog b x + 1" by (rule ilog_unique [OF assms])
    define e where "e = ilog b x - (p - 1)"
    have e: "ilog b x + 1 - (p - 1) = e + 1" by (simp add: e_def)
    have pw: "?B powi (e + 1) = ?B powi e * ?B" using B by (simp add: power_int_add)
    have pe: "0 < ?B powi e" using B by simp
    have sc: "x * ?B / (?B powi e * ?B) = x / ?B powi e" using B by simp
    have xb: "0 < x * ?B" using x B by simp
    have "round_to b p (x * ?B) = of_int (round_half_even (x / ?B powi e)) * (?B powi e * ?B)"
      unfolding round_to_pos_eq [OF xb] il e pw sc ..
    moreover have "round_to b p x = of_int (round_half_even (x / ?B powi e)) * ?B powi e"
      unfolding round_to_pos_eq [OF x] e_def ..
    ultimately show ?thesis by simp
  qed
  consider "0 < x" | "x = 0" | "0 < - x" by linarith
  then show ?thesis
  proof cases
    case 3
    from pos [OF this] show ?thesis by (simp add: round_to_minus)
  qed (simp_all add: pos)
qed


lemma round_to_of_int:
  assumes "1 < b" "1 \<le> p" "0 < n" "n < b ^ nat p"
  shows "round_to b p (of_int n) = of_int n"
proof -
  let ?B = "of_int b :: rat"
  let ?x = "of_int n :: rat"
  have B: "1 < ?B" "?B \<noteq> 0" using assms(1) by simp_all
  have x: "0 < ?x" using assms(3) by simp
  have "?x < of_int (b ^ nat p)" using assms(4) by (simp only: of_int_less_iff)
  also have "\<dots> = ?B powi p" using assms(2) by (simp add: power_int_def)
  finally have xp: "?x < ?B powi p" .
  have "ilog b ?x < p"
  proof (rule ccontr)
    assume "\<not> ilog b ?x < p"
    then have "?B powi p \<le> ?B powi ilog b ?x"
      using B by (intro power_int_increasing) auto
    with ilog_bounds(1) [OF x assms(1)] xp show False by simp
  qed
  then obtain j where j: "ilog b ?x - (p - 1) = - int j"
    by (metis add.commute add_uminus_conv_diff diff_ge_0_iff_ge minus_diff_eq
        nonneg_int_cases zle_diff1_eq)
  have "?x / ?B powi (- int j) = ?x * ?B ^ j" by (simp add: power_int_minus field_simps)
  also have "\<dots> = of_int (n * b ^ j)" by simp
  finally have "?x / ?B powi (ilog b ?x - (p - 1)) = of_int (n * b ^ j)" by (simp only: j)
  from round_to_exact [OF x this assms(1)] show ?thesis .
qed

lemma fl_zero [simp]: "fl 0 = 0"
  by (simp add: fl_def)

lemma fl_mono: "x \<le> y \<Longrightarrow> fl x \<le> fl y"
  unfolding fl_def by (rule round_to_mono) simp_all

lemma fl_nonneg: "0 \<le> x \<Longrightarrow> 0 \<le> fl x"
  using fl_mono [of 0 x] by simp

lemma fl_idem [simp]: "fl (fl x) = fl x"
  unfolding fl_def by (rule round_to_idem) simp_all

lemma fl_double: "fl (2 * x) = 2 * fl x"
  using round_to_scale [of 2 53 x] by (simp add: fl_def mult.commute)

lemma fl_of_int:
  assumes "\<bar>n\<bar> < 2 ^ 53"
  shows "fl (of_int n) = of_int n"
proof -
  have pos: "fl (of_int n) = of_int n" if "0 < n" "n < 2 ^ 53" for n
    unfolding fl_def using that by (intro round_to_of_int) simp_all
  consider "0 < n" | "n = 0" | "0 < - n" by linarith
  then show ?thesis
  proof cases
    case 1
    with assms pos show ?thesis by simp
  next
    case 2
    then show ?thesis by simp
  next
    case 3
    with assms have "fl (of_int (- n)) = of_int (- n)" by (intro pos) simp_all
    then show ?thesis by (simp add: fl_def round_to_minus)
  qed
qed

lemma fl_one [simp]: "fl 1 = 1"
  using fl_of_int [of 1] by simp

lemma fl_numeral_small:
  "numeral k < (2 ^ 53 :: int) \<Longrightarrow> fl (numeral k) = numeral k"
  using fl_of_int [of "numeral k"] by simp

lemma dec_zero [simp]: "dec 0 = 0"
  by (simp add: dec_def)

lemma dec_of_int:
  assumes "\<bar>n\<bar> < 10 ^ 28"
  shows "dec (of_int n) = of_int n"
proof -
  have pos: "dec (of_int n) = of_int n" if "0 < n" "n < 10 ^ 28" for n
    unfolding dec_def using that by (intro round_to_of_int) simp_all
  consider "0 < n" | "n = 0" | "0 < - n" by linarith
  then show ?thesis
  proof cases
    case 1
    with assms pos show ?thesis by simp
  next
    case 2
    then show ?thesis by simp
  next
    case 3
    with assms have "dec (of_int (- n)) = of_int (- n)" by (intro pos) simp_all
    then show ?thesis by (simp add: dec_def round_to_minus)
  qed
qed

lemma fl_minus: "fl (- x) = - fl x"
  by (simp add: fl_def round_to_minus)

lemma dec_minus: "dec (- x) = - dec x"
  by (simp add: dec_def round_to_minus)

lemma dec_numeral_small:
  "numeral k < (10 ^ 28 :: int) \<Longrightarrow> dec (numeral k) = numeral k"
  using dec_of_int [of "numeral k"] by simp

lemma dec_one [simp]: "dec 1 = 1"
  using dec_of_int [of 1] by simp

section \<open>Evaluations on concrete inputs\<close>

lemma sim_110_100: "calculate_amount_similarity 110 100 = 3602879701896397 / 4503599627370496"
  by code_simp
lemma sim_100_110: "calculate_amount_similarity 100 110 = 3684763331484951 / 4503599627370496"
  by code_simp
lemma sim_100_90: "calculate_amount_similarity 100 90 = 7005599420354105 / 9007199254740992"
  by code_simp
lemma sim_90_100: "calculate_amount_similarity 90 100 = 3602879701896397 / 4503599627370496"
  by code_simp
lemma name_sim_acme: "calculate_name_similarity ''Acme Holdings'' ''Acme'' = 1"
  by code_simp

lemma name_sim_acme_corp: "calculate_name_similarity ''Acme Holdings'' ''Acme Corp'' = 1"
  by code_simp

lemma lit_0_6: "fl (3 / 5) = 5404319552844595 / 9007199254740992"
  by code_simp

lemma lit_0_8: "fl (4 / 5) = 3602879701896397 / 4503599627370496"
  by code_simp

lemma lit_0_95: "fl (19 / 20) = 4278419646001971 / 4503599627370496"
  by code_simp

lemma amount_sim_same [simp]: "calculate_amount_similarity x x = 1"
  by (simp add: calculate_amount_similarity_def)

lemma acme_clears: "clears_thresholds acme_transaction acme_remittance"
  by (simp add: clears_thresholds_def acme_transaction_def acme_remittance_def
       name_sim_acme lit_0_6 lit_0_8)

lemma acme_classify:
  "classify_reference acme_transaction acme_invoice = (''Exact'', fl (99 / 100))"
  by (simp add: classify_reference_def acme_transaction_def acme_invoice_def
       name_sim_acme_corp lit_0_95 fmul_def fdiv_def float_of_int_def py_int_def
       fl_numeral_small)

lemma acme_reference_match:
  "match_by_invoice_reference acme_transaction [acme_remittance] [acme_invoice]
   = Some (acme_invoice, acme_remittance, ''Exact'', fl (99 / 100))"
proof -
  have "find_remittance acme_transaction [acme_remittance] = Some acme_remittance"
    using acme_clears by (simp add: clears_thresholds_def)
  moreover have "find_invoice (invoice_reference acme_remittance) [acme_invoice] = Some acme_invoice"
    by (simp add: acme_remittance_def acme_invoice_def)
  ultimately show ?thesis by (simp add: match_by_invoice_reference_def acme_classify)
qed

section \<open>Amount similarity\<close>

text \<open>
  Claim C2 says that \<open>calculate_amount_similarity\<close> stays in the interval from 0 to 1 for
  amounts of any sign.  The source divides by \<open>amount2\<close> itself, so for a negative
  \<open>amount2\<close> the relative difference is negative and the score exceeds 1: for the amounts
  -100 and -50 it is 3.
\<close>

theorem amount_similarity_above_one:
  "calculate_amount_similarity (- 100) (- 50) = 3"
  by (simp add: calculate_amount_similarity_def dec_sub_def dec_abs_def dec_div_def
       float_of_decimal_def fmul_def fsub_def py_max_def fl_minus dec_minus
       dec_numeral_small fl_numeral_small)

text \<open>
  Claim C6: \<open>calculate_amount_similarity\<close> is not symmetric.  The scores of (100, 90) and
  (90, 100) differ; for (110, 100) the score is the double 0.8, for (100, 110) it lies
  within 0.001 of 0.818.
\<close>

theorem amount_similarity_not_symmetric:
  "calculate_amount_similarity 100 90 \<noteq> calculate_amount_similarity 90 100
   \<and> calculate_amount_similarity 110 100 = fl (8 / 10)
   \<and> \<bar>calculate_amount_similarity 100 110 - 818 / 1000\<bar> < 1 / 1000
   \<and> calculate_amount_similarity 110 100 \<noteq> calculate_amount_similarity 100 110"
  unfolding sim_110_100 sim_100_110 sim_100_90 sim_90_100 by (simp add: lit_0_8)

section \<open>The reference matcher\<close>






lemma erase_transaction_fields:
  assumes "erase_transaction_currency t = erase_transaction_currency t'"
  shows "BankTransaction.payer_name t = BankTransaction.payer_name t'" "amount t = amount t'"
proof -
  have "BankTransaction.payer_name (erase_transaction_currency t)
        = BankTransaction.payer_name (erase_transaction_currency t')"
       "amount (erase_transaction_currency t) = amount (erase_transaction_currency t')"
    by (simp_all only: assms)
  then show "BankTransaction.payer_name t = BankTransaction.payer_name t'" "amount t = amount t'"
    by (simp_all add: erase_transaction_currency_def)
qed

lemma erase_invoice_fields:
  assumes "erase_invoice_currency i = erase_invoice_currency i'"
  shows "invoice_id i = invoice_id i'" "client_name i = client_name i'"
        "Invoice.invoice_amount i = Invoice.invoice_amount i'"
proof -
  have "invoice_id (erase_invoice_currency i) = invoice_id (erase_invoice_currency i')"
       "client_name (erase_invoice_currency i) = client_name (erase_invoice_currency i')"
       "Invoice.invoice_amount (erase_invoice_currency i)
        = Invoice.invoice_amount (erase_invoice_currency i')"
    by (simp_all only: assms)
  then show "invoice_id i = invoice_id i'" "client_name i = client_name i'"
        "Invoice.invoice_amount i = Invoice.invoice_amount i'"
    by (simp_all add: erase_invoice_currency_def)
qed

lemma find_remittance_erase:
  "erase_transaction_currency t = erase_transaction_currency t' \<Longrightarrow>
   find_remittance t rs = find_remittance t' rs"
proof (induction rs)
  case Nil
  show ?case by simp
next
  case (Cons r rs)
  from erase_transaction_fields [OF Cons.prems] Cons.IH [OF Cons.prems]
  show ?case by simp
qed

lemma find_invoice_erase:
  "map erase_invoice_currency invs = map erase_invoice_currency invs' \<Longrightarrow>
   map_option erase_invoice_currency (find_invoice ref invs)
   = map_option erase_invoice_currency (find_invoice ref invs')"
proof (induction invs arbitrary: invs')
  case Nil
  then show ?case by simp
next
  case (Cons i invs)
  then obtain i' rest where invs': "invs' = i' # rest" by (cases invs') auto
  with Cons.prems have e: "erase_invoice_currency i = erase_invoice_currency i'"
    and m: "map erase_invoice_currency invs = map erase_invoice_currency rest" by simp_all
  show ?case
  proof (cases "invoice_id i = ref")
    case True
    then show ?thesis using erase_invoice_fields(1) [OF e] by (simp add: invs' e)
  next
    case False
    then show ?thesis using erase_invoice_fields(1) [OF e] Cons.IH [OF m] by (simp add: invs')
  qed
qed

lemma classify_reference_erase:
  "erase_transaction_currency t = erase_transaction_currency t' \<Longrightarrow>
   erase_invoice_currency i = erase_invoice_currency i' \<Longrightarrow>
   classify_reference t i = classify_reference t' i'"
  using erase_transaction_fields [of t t'] erase_invoice_fields [of i i']
  by (simp add: classify_reference_def)

text \<open>
  Claim C8: the result of \<open>match_by_invoice_reference\<close> does not depend on any currency
  field.  Two runs whose transactions and invoice lists agree up to the currency values
  return results that agree up to the currency of the selected invoice: the same invoice
  otherwise, the same remittance, match type and confidence.  So the reference strategy
  matches a payment in one currency to an invoice in another, as on the fixture with the
  transaction in SGD and the invoice in EUR.
\<close>

theorem reference_ignores_currency:
  assumes "erase_transaction_currency t = erase_transaction_currency t'"
    and "map erase_invoice_currency invs = map erase_invoice_currency invs'"
  shows "map_option erase_result_currency (match_by_invoice_reference t rs invs)
         = map_option erase_result_currency (match_by_invoice_reference t' rs invs')"
proof (cases "find_remittance t rs")
  case None
  then show ?thesis
    using find_remittance_erase [OF assms(1), of rs] by (simp add: match_by_invoice_reference_def)
next
  case (Some r)
  then have r': "find_remittance t' rs = Some r"
    using find_remittance_erase [OF assms(1), of rs] by simp
  note fi = find_invoice_erase [OF assms(2), of "invoice_reference r"]
  show ?thesis
  proof (cases "find_invoice (invoice_reference r) invs")
    case None
    with fi have "find_invoice (invoice_reference r) invs' = None" by simp
    with None Some r' show ?thesis by (simp add: match_by_invoice_reference_def)
  next
    case (Some i)
    with fi obtain i' where i': "find_invoice (invoice_reference r) invs' = Some i'"
      and e: "erase_invoice_currency i = erase_invoice_currency i'"
      by (cases "find_invoice (invoice_reference r) invs'") simp_all
    obtain ty c where c: "classify_reference t i = (ty, c)" by (cases "classify_reference t i")
    with classify_reference_erase [OF assms(1) e] have c': "classify_reference t' i' = (ty, c)"
      by simp
    have "match_by_invoice_reference t rs invs = Some (i, r, ty, c)"
      using \<open>find_remittance t rs = Some r\<close> Some c by (simp add: match_by_invoice_reference_def)
    moreover have "match_by_invoice_reference t' rs invs' = Some (i', r, ty, c)"
      using r' i' c' by (simp add: match_by_invoice_reference_def)
    ultimately show ?thesis by (simp add: erase_result_currency_def e)
  qed
qed

theorem reference_ignores_currency_witness:
  "erase_transaction_currency acme_transaction
     = erase_transaction_currency (acme_transaction\<lparr>BankTransaction.currency := ''SGD''\<rparr>)
   \<and> map erase_invoice_currency [acme_invoice]
     = map erase_invoice_currency [acme_invoice\<lparr>Invoice.currency := ''EUR''\<rparr>]
   \<and> map_option erase_result_currency
        (match_by_invoice_reference (acme_transaction\<lparr>BankTransaction.currency := ''SGD''\<rparr>)
           [acme_remittance] [acme_invoice\<lparr>Invoice.currency := ''EUR''\<rparr>])
     = Some (erase_invoice_currency acme_invoice, acme_remittance, ''Exact'', fl (99 / 100))"
proof -
  have a: "erase_transaction_currency acme_transaction
     = erase_transaction_currency (acme_transaction\<lparr>BankTransaction.currency := ''SGD''\<rparr>)"
    by (simp add: erase_transaction_currency_def)
  have b: "map erase_invoice_currency [acme_invoice]
     = map erase_invoice_currency [acme_invoice\<lparr>Invoice.currency := ''EUR''\<rparr>]"
    by (simp add: erase_invoice_currency_def)
  from reference_ignores_currency [OF a b, of "[acme_remittance]"] acme_reference_match a b
  show ?thesis by (simp add: erase_result_currency_def)
qed

section \<open>The orchestrator\<close>



lemma conf_99: "fl (fl (99 / 100) * 100) = 99"
  by code_simp

lemma str_int_99: "str_int 99 = ''99''"
  by code_simp

lemma acme_posting_eval:
  "match_payment_to_invoice acme_transaction [acme_remittance] [acme_invoice]
   = Some \<lparr> payment_ref = ''TXN-1'', payer_name = ''Acme Holdings'',
              matched_invoice = ''INV-100'', match_type = ''Exact'', confidence = ''99%'',
              posting_status = ''Auto-posted'', bank_amount = Some 1000,
              invoice_amount = Some 1000, amount_difference = Some 0 \<rparr>"
proof -
  have "posting acme_transaction acme_invoice ''Exact'' (fl (99 / 100))
        = \<lparr> payment_ref = ''TXN-1'', payer_name = ''Acme Holdings'',
              matched_invoice = ''INV-100'', match_type = ''Exact'', confidence = ''99%'',
              posting_status = ''Auto-posted'', bank_amount = Some 1000,
              invoice_amount = Some 1000, amount_difference = Some 0 \<rparr>"
    unfolding posting_def fmul_def float_of_int_def
    by (simp add: fl_numeral_small conf_99 py_int_def str_int_99 dec_sub_def
         acme_transaction_def acme_invoice_def)
  then show ?thesis
    by (simp add: match_payment_to_invoice_def acme_reference_match)
qed

text \<open>
  Claim C5: on the fixture (transaction of Acme Holdings over 1000.00 USD, one remittance
  of Acme for INV-100 over 1000.00, one invoice INV-100 of Acme Corp over 1000.00 USD) the
  reference matcher succeeds and \<open>match_payment_to_invoice\<close> returns a posting with match
  type Exact, confidence 99 percent (at least 95) and amount difference 0.
\<close>

theorem acme_end_to_end:
  "match_by_invoice_reference acme_transaction [acme_remittance] [acme_invoice]
   = Some (acme_invoice, acme_remittance, ''Exact'', fl (99 / 100))
   \<and> match_payment_to_invoice acme_transaction [acme_remittance] [acme_invoice]
     = Some \<lparr> payment_ref = ''TXN-1'', payer_name = ''Acme Holdings'',
              matched_invoice = ''INV-100'', match_type = ''Exact'', confidence = ''99%'',
              posting_status = ''Auto-posted'', bank_amount = Some 1000,
              invoice_amount = Some 1000, amount_difference = Some 0 \<rparr>"
  using acme_reference_match acme_posting_eval by simp

section \<open>The fuzzy matcher\<close>

lemma fuzzy_loop_invariant:
  "case foldl (fuzzy_step t {}) (None, 0) xs of
     (None, s) \<Rightarrow>
       s = 0 \<and> (\<forall>i\<in>set xs. BankTransaction.currency t = Invoice.currency i \<longrightarrow>
                    \<not> fl (7 / 10) < combined_score t i)
   | (Some (b, ty), s) \<Rightarrow>
       s = combined_score t b \<and> fl (7 / 10) < combined_score t b
       \<and> BankTransaction.currency t = Invoice.currency b
       \<and> ty = fuzzy_match_type
                (calculate_name_similarity (BankTransaction.payer_name t) (client_name b))
                (calculate_amount_similarity (amount t) (Invoice.invoice_amount b))
       \<and> (\<exists>pre post. xs = pre @ b # post
             \<and> (\<forall>i\<in>set pre. BankTransaction.currency t = Invoice.currency i \<longrightarrow>
                    combined_score t i < combined_score t b)
             \<and> (\<forall>i\<in>set post. BankTransaction.currency t = Invoice.currency i \<longrightarrow>
                    combined_score t i \<le> combined_score t b))"
proof (induction xs rule: rev_induct)
  case Nil
  show ?case by simp
next
  case (snoc x xs)
  let ?st = "foldl (fuzzy_step t {}) (None, 0) xs"
  have pos: "0 \<le> fl (7 / 10)" by (rule fl_nonneg) simp
  have fold: "foldl (fuzzy_step t {}) (None, 0) (xs @ [x]) = fuzzy_step t {} ?st x" by simp
  show ?case
  proof (cases "BankTransaction.currency t = Invoice.currency x")
    case False
    then have same: "fuzzy_step t {} ?st x = ?st" by (simp add: fuzzy_step_def)
    show ?thesis
    proof (cases "fst ?st")
      case None
      then obtain s where st: "?st = (None, s)" by (cases ?st) auto
      with snoc.IH False show ?thesis unfolding fold same by auto
    next
      case (Some bt)
      then obtain b ty s where st: "?st = (Some (b, ty), s)" by (cases ?st; cases bt) auto
      with snoc.IH obtain pre post where
        pp: "xs = pre @ b # post"
            "\<forall>i\<in>set pre. BankTransaction.currency t = Invoice.currency i \<longrightarrow>
                    combined_score t i < combined_score t b"
            "\<forall>i\<in>set post. BankTransaction.currency t = Invoice.currency i \<longrightarrow>
                    combined_score t i \<le> combined_score t b" by auto
      have "xs @ [x] = pre @ b # (post @ [x])" using pp(1) by simp
      moreover have "\<forall>i\<in>set (post @ [x]). BankTransaction.currency t = Invoice.currency i \<longrightarrow>
                    combined_score t i \<le> combined_score t b" using pp(3) False by auto
      ultimately have "\<exists>pre post. xs @ [x] = pre @ b # post
             \<and> (\<forall>i\<in>set pre. BankTransaction.currency t = Invoice.currency i \<longrightarrow>
                    combined_score t i < combined_score t b)
             \<and> (\<forall>i\<in>set post. BankTransaction.currency t = Invoice.currency i \<longrightarrow>
                    combined_score t i \<le> combined_score t b)" using pp(2) by blast
      with snoc.IH st show ?thesis unfolding fold same by simp
    qed
  next
    case True
    show ?thesis
    proof (cases "fst ?st")
      case None
      then obtain s where st: "?st = (None, s)" by (cases ?st) auto
      with snoc.IH have s: "s = 0"
        and none: "\<forall>i\<in>set xs. BankTransaction.currency t = Invoice.currency i \<longrightarrow>
                    \<not> fl (7 / 10) < combined_score t i" by auto
      show ?thesis
      proof (cases "fl (7 / 10) < combined_score t x")
        case hit: True
        with pos have "0 < combined_score t x" by simp
        with hit True st s have step: "fuzzy_step t {} ?st x
           = (Some (x, fuzzy_match_type
                (calculate_name_similarity (BankTransaction.payer_name t) (client_name x))
                (calculate_amount_similarity (amount t) (Invoice.invoice_amount x))),
              combined_score t x)" by (simp add: fuzzy_step_def)
        have "\<forall>i\<in>set xs. BankTransaction.currency t = Invoice.currency i \<longrightarrow>
                    combined_score t i < combined_score t x" using none hit by fastforce
        then have "\<exists>pre post. xs @ [x] = pre @ x # post
             \<and> (\<forall>i\<in>set pre. BankTransaction.currency t = Invoice.currency i \<longrightarrow>
                    combined_score t i < combined_score t x)
             \<and> (\<forall>i\<in>set post. BankTransaction.currency t = Invoice.currency i \<longrightarrow>
                    combined_score t i \<le> combined_score t x)"
          by (intro exI [of _ xs] exI [of _ "[]"]) simp
        with hit True show ?thesis unfolding fold step by simp
      next
        case miss: False
        with st have step: "fuzzy_step t {} ?st x = ?st" by (simp add: fuzzy_step_def)
        show ?thesis unfolding fold step using st s none miss by simp
      qed
    next
      case (Some bt)
      then obtain b ty s where st: "?st = (Some (b, ty), s)" by (cases ?st; cases bt) auto
      with snoc.IH have s: "s = combined_score t b" and b: "fl (7 / 10) < combined_score t b"
        by auto
      from snoc.IH st obtain pre post where
        pp: "xs = pre @ b # post"
            "\<forall>i\<in>set pre. BankTransaction.currency t = Invoice.currency i \<longrightarrow>
                    combined_score t i < combined_score t b"
            "\<forall>i\<in>set post. BankTransaction.currency t = Invoice.currency i \<longrightarrow>
                    combined_score t i \<le> combined_score t b" by auto
      show ?thesis
      proof (cases "combined_score t b < combined_score t x")
        case better: True
        with b have hit: "fl (7 / 10) < combined_score t x" by simp
        with better True st s have step: "fuzzy_step t {} ?st x
           = (Some (x, fuzzy_match_type
                (calculate_name_similarity (BankTransaction.payer_name t) (client_name x))
                (calculate_amount_similarity (amount t) (Invoice.invoice_amount x))),
              combined_score t x)" by (simp add: fuzzy_step_def)
        have "\<forall>i\<in>set xs. BankTransaction.currency t = Invoice.currency i \<longrightarrow>
                    combined_score t i < combined_score t x"
          using pp better by fastforce
        then have "\<exists>pre post. xs @ [x] = pre @ x # post
             \<and> (\<forall>i\<in>set pre. BankTransaction.currency t = Invoice.currency i \<longrightarrow>
                    combined_score t i < combined_score t x)
             \<and> (\<forall>i\<in>set post. BankTransaction.currency t = Invoice.currency i \<longrightarrow>
                    combined_score t i \<le> combined_score t x)"
          by (intro exI [of _ xs] exI [of _ "[]"]) simp
        with hit True show ?thesis unfolding fold step by simp
      next
        case worse: False
        with st s have step: "fuzzy_step t {} ?st x = ?st" by (simp add: fuzzy_step_def)
        have "xs @ [x] = pre @ b # (post @ [x])" using pp(1) by simp
        moreover have "\<forall>i\<in>set (post @ [x]). BankTransaction.currency t = Invoice.currency i \<longrightarrow>
                    combined_score t i \<le> combined_score t b" using pp(3) worse by auto
        ultimately have "\<exists>pre post. xs @ [x] = pre @ b # post
             \<and> (\<forall>i\<in>set pre. BankTransaction.currency t = Invoice.currency i \<longrightarrow>
                    combined_score t i < combined_score t b)
             \<and> (\<forall>i\<in>set post. BankTransaction.currency t = Invoice.currency i \<longrightarrow>
                    combined_score t i \<le> combined_score t b)" using pp(2) by blast
        with snoc.IH st show ?thesis unfolding fold step by simp
      qed
    qed
  qed
qed









section \<open>Confidence percentages\<close>

lemma fl_by_exponent:
  assumes "2 powi l \<le> x" "x < 2 powi (l + 1)"
  shows "fl x = of_int (round_half_even (x / 2 powi (l - 52))) * 2 powi (l - 52)"
proof -
  have "ilog 2 x = l" by (rule ilog_unique) (use assms in simp_all)
  moreover have "0 < x" using assms(1) zero_less_power_int [of "2 :: rat" l] by linarith
  ultimately show ?thesis by (simp add: fl_def round_to_pos_eq)
qed

lemma round_half_even_div:
  assumes "d \<noteq> 0"
  shows "round_half_even (of_int n / of_int d)
         = round_half_even_aux (n div d) (of_int (n mod d) / of_int d)"
proof -
  have f: "\<lfloor>(of_int n :: rat) / of_int d\<rfloor> = n div d"
    by (rule floor_divide_of_int_eq)
  have e: "(of_int n :: rat) = of_int (n div d) * of_int d + of_int (n mod d)"
    by (simp only: of_int_add [symmetric] of_int_mult [symmetric] div_mult_mod_eq)
  have "(of_int (n div d) * of_int d + of_int (n mod d)) / of_int d - of_int (n div d)
        = (of_int (n mod d) / of_int d :: rat)"
    using assms by (simp add: add_divide_distrib)
  then have "(of_int n :: rat) / of_int d - of_int (n div d) = of_int (n mod d) / of_int d"
    by (simp only: e [symmetric])
  then show ?thesis unfolding round_half_even_def f by simp
qed

lemma round_half_even_numeral_div:
  "round_half_even (numeral a / numeral b)
   = round_half_even_aux (numeral a div numeral b)
       (of_int (numeral a mod numeral b) / numeral b)"
  using round_half_even_div [of "numeral b" "numeral a"] by simp

lemma round_half_even_numeral: "round_half_even (numeral k) = numeral k"
  using round_half_even_of_int [of "numeral k"] by simp

lemma percent_roundtrip:
  assumes "70 \<le> c" "c \<le> 99"
  shows "py_int (fl (fl (of_int c / 100) * 100)) = c"
proof -
  have "c = 70 \<or> c = 71 \<or> c = 72 \<or> c = 73 \<or> c = 74 \<or> c = 75 \<or> c = 76 \<or> c = 77 \<or> c = 78
        \<or> c = 79 \<or> c = 80 \<or> c = 81 \<or> c = 82 \<or> c = 83 \<or> c = 84 \<or> c = 85 \<or> c = 86 \<or> c = 87
        \<or> c = 88 \<or> c = 89 \<or> c = 90 \<or> c = 91 \<or> c = 92 \<or> c = 93 \<or> c = 94 \<or> c = 95 \<or> c = 96
        \<or> c = 97 \<or> c = 98 \<or> c = 99"
    using assms by arith
  then show ?thesis
    by (elim disjE;
        (simp only: of_int_numeral),
        (subst (2) fl_by_exponent [where l = "- 1"];
         simp add: round_half_even_numeral_div round_half_even_numeral round_half_even_aux_def),
        (subst fl_by_exponent [where l = 6];
         simp add: round_half_even_numeral_div round_half_even_numeral round_half_even_aux_def py_int_def))
qed

lemma above_095: "9 \<le> fl (fl (19 / 20) * 10)"
  by ((subst (2) fl_by_exponent [where l = "- 1"];
       simp add: round_half_even_numeral_div round_half_even_numeral round_half_even_aux_def),
      (subst fl_by_exponent [where l = 3];
       simp add: round_half_even_numeral_div round_half_even_numeral round_half_even_aux_def))

lemma above_07: "70 \<le> fl (fl (7 / 10) * 100)"
  by ((subst (2) fl_by_exponent [where l = "- 1"];
       simp add: round_half_even_numeral_div round_half_even_numeral round_half_even_aux_def),
      (subst fl_by_exponent [where l = 6];
       simp add: round_half_even_numeral_div round_half_even_numeral round_half_even_aux_def))

lemma py_int_nonneg: "0 \<le> x \<Longrightarrow> 0 \<le> py_int x"
  by (simp add: py_int_def)

lemma py_int_ge: "0 \<le> x \<Longrightarrow> of_int n \<le> x \<Longrightarrow> n \<le> py_int x"
  by (simp add: py_int_def le_floor_iff)

lemma calculate_ratio_nonneg: "0 \<le> calculate_ratio m l"
  by (simp add: calculate_ratio_def fdiv_def fmul_def float_of_int_def fl_nonneg)

lemma calculate_name_similarity_nonneg: "0 \<le> calculate_name_similarity a b"
proof -
  have r: "0 \<le> ratio (normalize a) (normalize b)"
    by (simp add: ratio_def calculate_ratio_nonneg)
  have "0 \<le> fl (2 / 10)" by (rule fl_nonneg) simp
  with r have "0 \<le> fadd (ratio (normalize a) (normalize b)) (fl (2 / 10))"
    unfolding fadd_def by (intro fl_nonneg) simp
  with r show ?thesis by (simp add: calculate_name_similarity_def Let_def py_min_def)
qed

lemma calculate_amount_similarity_nonneg: "0 \<le> calculate_amount_similarity x y"
  by (simp add: calculate_amount_similarity_def Let_def py_max_def)

lemma confidence_fraction:
  assumes "0 \<le> c" "c \<le> 99"
  shows "fdiv (float_of_int c) 100 = fl (of_int c / 100)"
proof -
  have "fl (of_int c) = of_int c" by (rule fl_of_int) (use assms in simp)
  then show ?thesis by (simp add: fdiv_def float_of_int_def)
qed

lemma classify_reference_range:
  assumes "classify_reference t i = (ty, conf)"
  shows "\<exists>c. conf = fl (of_int c / 100)
             \<and> ((ty = ''Exact'' \<and> 94 \<le> c \<and> c \<le> 99) \<or> (ty = ''Reference'' \<and> 80 \<le> c \<and> c \<le> 98))"
proof -
  define a where "a = calculate_amount_similarity (amount t) (Invoice.invoice_amount i)"
  define n where "n = calculate_name_similarity (BankTransaction.payer_name t) (client_name i)"
  define u where "u = py_int (fmul a (float_of_int 10))"
  define v where "v = py_int (fmul n (float_of_int 5))"
  have a0: "0 \<le> a" unfolding a_def by (rule calculate_amount_similarity_nonneg)
  have n0: "0 \<le> n" unfolding n_def by (rule calculate_name_similarity_nonneg)
  have f10: "fmul a (float_of_int 10) = fl (a * 10)"
    by (simp add: fmul_def float_of_int_def fl_numeral_small)
  have f5: "fmul n (float_of_int 5) = fl (n * 5)"
    by (simp add: fmul_def float_of_int_def fl_numeral_small)
  have u0: "0 \<le> u" unfolding u_def f10 using a0 by (intro py_int_nonneg fl_nonneg) simp
  have v0: "0 \<le> v" unfolding v_def f5 using n0 by (intro py_int_nonneg fl_nonneg) simp
  show ?thesis
  proof (cases "fl (95 / 100) < a")
    case True
    then have "fl (19 / 20) * 10 \<le> a * 10" by simp
    from fl_mono [OF this] above_095 have "9 \<le> fl (a * 10)" by linarith
    then have "9 \<le> u" unfolding u_def f10 by (intro py_int_ge) simp_all
    with v0 have c: "94 \<le> min 99 (85 + u + v)" "0 \<le> min 99 (85 + u + v)"
      "min 99 (85 + u + v) \<le> 99" by simp_all
    have "classify_reference t i = (''Exact'', fdiv (float_of_int (min 99 (85 + u + v))) 100)"
      using True by (simp add: classify_reference_def Let_def a_def n_def u_def v_def)
    with assms have "ty = ''Exact''" "conf = fdiv (float_of_int (min 99 (85 + u + v))) 100"
      by simp_all
    with confidence_fraction [OF c(2,3)] c(1,3) show ?thesis
      by (intro exI [of _ "min 99 (85 + u + v)"]) (simp only: simp_thms)
  next
    case False
    from u0 v0 have c: "80 \<le> min 98 (80 + u + v)" "0 \<le> min 98 (80 + u + v)"
      "min 98 (80 + u + v) \<le> 99" "min 98 (80 + u + v) \<le> 98" by simp_all
    have "classify_reference t i = (''Reference'', fdiv (float_of_int (min 98 (80 + u + v))) 100)"
      using False by (simp add: classify_reference_def Let_def a_def n_def u_def v_def)
    with assms have "ty = ''Reference''" "conf = fdiv (float_of_int (min 98 (80 + u + v))) 100"
      by simp_all
    with confidence_fraction [OF c(2,3)] c(1,4) show ?thesis
      by (intro exI [of _ "min 98 (80 + u + v)"]) (simp only: simp_thms)
  qed
qed

lemma fuzzy_match_type_cases:
  "fuzzy_match_type n a \<in> {''Fuzzy (name)'', ''Fuzzy (amount)'', ''Contextual''}"
  by (simp add: fuzzy_match_type_def)

lemma fuzzy_match_range:
  assumes "fuzzy_match t invs None = Some (b, ty, conf)"
  shows "\<exists>c. conf = fl (of_int c / 100) \<and> 70 \<le> c \<and> c \<le> 98
             \<and> ty \<in> {''Fuzzy (name)'', ''Fuzzy (amount)'', ''Contextual''}"
proof -
  let ?st = "foldl (fuzzy_step t {}) (None, 0) invs"
  note inv = fuzzy_loop_invariant [where t = t and xs = invs]
  from assms obtain s where st: "?st = (Some (b, ty), s)"
    and conf: "conf = fdiv (float_of_int (min 98 (py_int (fmul s (float_of_int 100))))) 100"
    by (auto simp: fuzzy_match_def split: prod.splits option.splits)
  have c: "s = combined_score t b \<and> fl (7 / 10) < combined_score t b
       \<and> BankTransaction.currency t = Invoice.currency b
       \<and> ty = fuzzy_match_type
                (calculate_name_similarity (BankTransaction.payer_name t) (client_name b))
                (calculate_amount_similarity (amount t) (Invoice.invoice_amount b))
       \<and> (\<exists>pre post. invs = pre @ b # post
             \<and> (\<forall>i\<in>set pre. BankTransaction.currency t = Invoice.currency i \<longrightarrow>
                    combined_score t i < combined_score t b)
             \<and> (\<forall>i\<in>set post. BankTransaction.currency t = Invoice.currency i \<longrightarrow>
                    combined_score t i \<le> combined_score t b))"
    using inv unfolding st prod.case option.case .
  then have s: "fl (7 / 10) < s" and ty: "ty = fuzzy_match_type
                (calculate_name_similarity (BankTransaction.payer_name t) (client_name b))
                (calculate_amount_similarity (amount t) (Invoice.invoice_amount b))"
    by simp_all
  have f100: "fmul s (float_of_int 100) = fl (s * 100)"
    by (simp add: fmul_def float_of_int_def fl_numeral_small)
  from s have "fl (7 / 10) * 100 \<le> s * 100" by simp
  from fl_mono [OF this] above_07 have "70 \<le> fl (s * 100)" by linarith
  then have "70 \<le> py_int (fl (s * 100))" by (intro py_int_ge) simp_all
  then have r: "70 \<le> min 98 (py_int (fl (s * 100)))" "0 \<le> min 98 (py_int (fl (s * 100)))"
    "min 98 (py_int (fl (s * 100))) \<le> 99" "min 98 (py_int (fl (s * 100))) \<le> 98" by simp_all
  from confidence_fraction [OF r(2,3)] conf f100
  have "conf = fl (of_int (min 98 (py_int (fl (s * 100)))) / 100)" by simp
  with r ty fuzzy_match_type_cases show ?thesis by blast
qed

lemma posting_confidence:
  assumes "70 \<le> c" "c \<le> 99"
  shows "confidence (posting t i ty (fl (of_int c / 100))) = str_int c @ ''%''"
    and "match_type (posting t i ty (fl (of_int c / 100))) = ty"
  using percent_roundtrip [OF assms]
  by (simp_all add: posting_def fmul_def float_of_int_def fl_numeral_small)


lemma reference_match_classify:
  "match_by_invoice_reference t rs invs = Some (i, r, ty, conf) \<Longrightarrow>
   classify_reference t i = (ty, conf)"
  by (auto simp: match_by_invoice_reference_def split: option.splits prod.splits)

text \<open>
  Claim C9: every posting that \<open>match_payment_to_invoice\<close> produces carries a confidence
  that is an integer percentage between 70 and 99: on the exact path at least 94 (capped
  at 99), on the reference path between 80 and 98, on the fuzzy path between 70 and 98.
\<close>

theorem confidence_range:
  assumes "match_payment_to_invoice t rs invs = Some p"
  shows "\<exists>n. confidence p = str_int n @ ''%'' \<and> 70 \<le> n \<and> n \<le> 99
             \<and> ((match_type p = ''Exact'' \<and> 94 \<le> n)
                \<or> (match_type p = ''Reference'' \<and> 80 \<le> n \<and> n \<le> 98)
                \<or> (match_type p \<in> {''Fuzzy (name)'', ''Fuzzy (amount)'', ''Contextual''}
                    \<and> n \<le> 98))"
proof (cases "match_by_invoice_reference t rs invs")
  case (Some res)
  then obtain i r ty conf where res: "match_by_invoice_reference t rs invs = Some (i, r, ty, conf)"
    by (cases res) auto
  with assms have p: "p = posting t i ty conf" by (simp add: match_payment_to_invoice_def)
  from classify_reference_range [OF reference_match_classify [OF res]] obtain c where
    c: "conf = fl (of_int c / 100)"
       "(ty = ''Exact'' \<and> 94 \<le> c \<and> c \<le> 99) \<or> (ty = ''Reference'' \<and> 80 \<le> c \<and> c \<le> 98)"
    by blast
  then have r: "70 \<le> c" "c \<le> 99" by auto
  from posting_confidence [OF r, of t i ty] c show ?thesis
    unfolding p c(1) by (intro exI [of _ c]) auto
next
  case None
  with assms obtain i ty conf where f: "fuzzy_match t invs None = Some (i, ty, conf)"
    and p: "p = posting t i ty conf"
    by (auto simp: match_payment_to_invoice_def split: option.splits)
  from fuzzy_match_range [OF f] obtain c where
    c: "conf = fl (of_int c / 100)" "70 \<le> c" "c \<le> 98"
       "ty \<in> {''Fuzzy (name)'', ''Fuzzy (amount)'', ''Contextual''}" by blast
  then have r: "70 \<le> c" "c \<le> 99" by auto
  from posting_confidence [OF r, of t i ty] c show ?thesis
    unfolding p c(1) by (intro exI [of _ c]) auto
qed


theorem confidence_range_witness:
  "match_payment_to_invoice acme_transaction [acme_remittance] [acme_invoice]
   = Some \<lparr> payment_ref = ''TXN-1'', payer_name = ''Acme Holdings'',
              matched_invoice = ''INV-100'', match_type = ''Exact'', confidence = ''99%'',
              posting_status = ''Auto-posted'', bank_amount = Some 1000,
              invoice_amount = Some 1000, amount_difference = Some 0 \<rparr>
   \<and> (\<exists>n. confidence \<lparr> payment_ref = ''TXN-1'', payer_name = ''Acme Holdings'',
              matched_invoice = ''INV-100'', match_type = ''Exact'', confidence = ''99%'',
              posting_status = ''Auto-posted'', bank_amount = Some 1000,
              invoice_amount = Some 1000, amount_difference = Some 0 \<rparr> = str_int n @ ''%''
          \<and> 70 \<le> n \<and> n \<le> 99)"
  using confidence_range [OF acme_posting_eval] acme_posting_eval by blast

section \<open>Identical names\<close>

lemma positions_snoc:
  "[j\<leftarrow>[0..<length (xs @ [x])]. (xs @ [x]) ! j = c]
   = [j\<leftarrow>[0..<length xs]. xs ! j = c] @ (if x = c then [length xs] else [])"
proof -
  have "[j\<leftarrow>[0..<length xs]. (xs @ [x]) ! j = c] = [j\<leftarrow>[0..<length xs]. xs ! j = c]"
    by (rule filter_cong) (simp_all add: nth_append)
  then show ?thesis by simp
qed

lemma foldl_chain_b_add:
  "foldl chain_b_add Map.empty (enumerate 0 xs) c
   = (if [j\<leftarrow>[0..<length xs]. xs ! j = c] = [] then None
      else Some [j\<leftarrow>[0..<length xs]. xs ! j = c])"
proof (induction xs arbitrary: c rule: rev_induct)
  case Nil
  show ?case by simp
next
  case (snoc x xs)
  let ?m = "foldl chain_b_add Map.empty (enumerate 0 xs)"
  have e: "enumerate 0 (xs @ [x]) = enumerate 0 xs @ [(length xs, x)]"
    by (simp add: enumerate_append_eq)
  have step: "chain_b_add ?m (length xs, x) c
              = (if c = x then Some ((case ?m x of None \<Rightarrow> [] | Some l \<Rightarrow> l) @ [length xs])
                 else ?m c)"
    by (simp add: chain_b_add_def)
  have "foldl chain_b_add Map.empty (enumerate 0 (xs @ [x])) c
        = chain_b_add ?m (length xs, x) c"
    unfolding e by simp
  also have "\<dots> = (if [j\<leftarrow>[0..<length xs]. xs ! j = c] @ (if x = c then [length xs] else []) = []
                    then None
                    else Some ([j\<leftarrow>[0..<length xs]. xs ! j = c]
                               @ (if x = c then [length xs] else [])))"
    unfolding step snoc.IH [of c] snoc.IH [of x] by auto
  finally show ?case unfolding positions_snoc .
qed

lemma chain_b_Some:
  assumes "chain_b b c = Some js"
  shows "js = [j\<leftarrow>[0..<length b]. b ! j = c]"
  using assms
  by (auto simp: chain_b_def purge_popular_def foldl_chain_b_add split: if_splits option.splits)

lemma chain_b_row:
  assumes "chain_b b (b ! i) = Some js" "i < length b"
  shows "i \<in> set js" "sorted_wrt (<) js" "\<forall>j\<in>set js. j < length b \<and> b ! j = b ! i"
proof -
  note js = chain_b_Some [OF assms(1)]
  show "i \<in> set js" using assms(2) by (simp add: js)
  show "sorted_wrt (<) js" unfolding js by (intro sorted_wrt_filter) simp
  show "\<forall>j\<in>set js. j < length b \<and> b ! j = b ! i" by (simp add: js)
qed

lemma inner_loop_diag:
  fixes a :: string and b2j :: b2j_map
  defines "r \<equiv> indexed_run b2j a"
  assumes i: "b2j (a ! i) \<noteq> None"
    and H1: "\<forall>j. j2lenget J j \<le> r i \<and> j2lenget J j \<le> r j"
    and H2: "j2lenget J i = r i"
    and js: "sorted_wrt (<) js" "\<forall>j\<in>set js. j < n \<and> a ! j = a ! i"
    and st: "bi = bj" "\<forall>m\<le>i. r m \<le> bs" "i \<in> set js \<or> r (Suc i) \<le> bs"
            "\<forall>j v. new j = Some v \<longrightarrow> v \<le> r (Suc i) \<and> v \<le> r (Suc j)"
            "i \<in> set js \<or> new i = Some (r (Suc i))"
    and run: "inner_loop i 0 n J js (new, (bi, bj, bs)) = (new', (bi', bj', bs'))"
  shows "bi' = bj' \<and> (\<forall>m\<le>Suc i. r m \<le> bs')
         \<and> (\<forall>j v. new' j = Some v \<longrightarrow> v \<le> r (Suc i) \<and> v \<le> r (Suc j))
         \<and> new' i = Some (r (Suc i))"
  using js st run
proof (induction js arbitrary: new bi bj bs)
  case Nil
  from Nil.prems(8) have eq: "new' = new" "bi' = bi" "bj' = bj" "bs' = bs" by simp_all
  from Nil.prems(5,7) have "r (Suc i) \<le> bs" "new i = Some (r (Suc i))" by simp_all
  with Nil.prems(3,4,6) show ?case unfolding eq by (auto simp: le_Suc_eq)
next
  case (Cons j js)
  let ?k = "j2lenget J j + 1"
  have ri: "r (Suc i) = r i + 1" using i by (simp add: r_def)
  have jn: "j < n" "a ! j = a ! i" using Cons.prems(2) by simp_all
  then have rj: "r (Suc j) = r j + 1" using i by (simp add: r_def)
  have k_i: "?k \<le> r (Suc i)" and k_j: "?k \<le> r (Suc j)" using H1 ri rj by simp_all
  have sorted: "sorted_wrt (<) js" "\<forall>j'\<in>set js. j < j'" using Cons.prems(1) by simp_all
  have mem: "\<forall>j\<in>set js. j < n \<and> a ! j = a ! i" using Cons.prems(2) by simp
  have new1: "\<forall>j' v. (new(j \<mapsto> ?k)) j' = Some v \<longrightarrow> v \<le> r (Suc i) \<and> v \<le> r (Suc j')"
    using Cons.prems(6) k_i k_j by auto
  have step: "inner_loop i 0 n J (j # js) (new, (bi, bj, bs))
              = inner_loop i 0 n J js
                  (new(j \<mapsto> ?k),
                   if bs < ?k then (i + 1 - ?k, j + 1 - ?k, ?k) else (bi, bj, bs))"
    using jn(1) by simp
  consider (eq) "j = i" | (lt) "j < i" | (gt) "i < j" by linarith
  then show ?case
  proof cases
    case eq
    have k: "?k = r (Suc i)" using H2 ri eq by simp
    have q5: "i \<in> set js \<or> (new(j \<mapsto> ?k)) i = Some (r (Suc i))" using eq k by simp
    show ?thesis
    proof (cases "bs < ?k")
      case True
      with step Cons.prems(8) have run': "inner_loop i 0 n J js
          (new(j \<mapsto> ?k), (i + 1 - ?k, j + 1 - ?k, ?k)) = (new', (bi', bj', bs'))" by simp
      have a1: "i + 1 - ?k = j + 1 - ?k" using eq by simp
      have a2: "\<forall>m\<le>i. r m \<le> ?k" using Cons.prems(4) True by (meson le_trans less_imp_le)
      have a3: "i \<in> set js \<or> r (Suc i) \<le> ?k" using k by simp
      from Cons.IH [OF sorted(1) mem a1 a2 a3 new1 q5 run'] show ?thesis .
    next
      case False
      with step Cons.prems(8) have run': "inner_loop i 0 n J js
          (new(j \<mapsto> ?k), (bi, bj, bs)) = (new', (bi', bj', bs'))" by simp
      have a3: "i \<in> set js \<or> r (Suc i) \<le> bs" using k False by simp
      from Cons.IH [OF sorted(1) mem Cons.prems(3,4) a3 new1 q5 run'] show ?thesis .
    qed
  next
    case lt
    then have "r (Suc j) \<le> bs" using Cons.prems(4) by simp
    with k_j have nb: "\<not> bs < ?k" by simp
    with step Cons.prems(8) have run': "inner_loop i 0 n J js
          (new(j \<mapsto> ?k), (bi, bj, bs)) = (new', (bi', bj', bs'))" by simp
    have a3: "i \<in> set js \<or> r (Suc i) \<le> bs" using Cons.prems(5) lt by auto
    have q5: "i \<in> set js \<or> (new(j \<mapsto> ?k)) i = Some (r (Suc i))"
      using Cons.prems(7) lt by auto
    from Cons.IH [OF sorted(1) mem Cons.prems(3,4) a3 new1 q5 run'] show ?thesis .
  next
    case gt
    then have notin: "i \<notin> set (j # js)" using sorted(2) by auto
    with Cons.prems(5,7) have b: "r (Suc i) \<le> bs" "new i = Some (r (Suc i))" by simp_all
    with k_i have nb: "\<not> bs < ?k" by simp
    with step Cons.prems(8) have run': "inner_loop i 0 n J js
          (new(j \<mapsto> ?k), (bi, bj, bs)) = (new', (bi', bj', bs'))" by simp
    have a3: "i \<in> set js \<or> r (Suc i) \<le> bs" using b by simp
    have q5: "i \<in> set js \<or> (new(j \<mapsto> ?k)) i = Some (r (Suc i))" using b gt by simp
    from Cons.IH [OF sorted(1) mem Cons.prems(3,4) a3 new1 q5 run'] show ?thesis .
  qed
qed

lemma outer_step_diag:
  fixes a :: string
  defines "r \<equiv> indexed_run (chain_b a) a"
  assumes i: "i < length a"
    and H1: "\<forall>j. j2lenget J j \<le> r i \<and> j2lenget J j \<le> r j"
    and H2: "j2lenget J i = r i"
    and st: "bi = bj" "\<forall>m\<le>i. r m \<le> bs"
    and run: "outer_step a (chain_b a) 0 (length a) (J, (bi, bj, bs)) i = (J', (bi', bj', bs'))"
  shows "bi' = bj' \<and> (\<forall>m\<le>Suc i. r m \<le> bs')
         \<and> (\<forall>j. j2lenget J' j \<le> r (Suc i) \<and> j2lenget J' j \<le> r j)
         \<and> j2lenget J' (Suc i) = r (Suc i)"
proof (cases "chain_b a (a ! i)")
  case None
  with run have eq: "J' = Map.empty" "bi' = bi" "bj' = bj" "bs' = bs"
    by (simp_all add: outer_step_def)
  have "r (Suc i) = 0" using None by (simp add: r_def)
  with st show ?thesis unfolding eq by (auto simp: le_Suc_eq j2lenget_def)
next
  case (Some js)
  note row = chain_b_row [OF Some i]
  from run Some have il: "inner_loop i 0 (length a) J js (Map.empty, (bi, bj, bs))
                          = (J', (bi', bj', bs'))"
    by (simp add: outer_step_def)
  have ne: "chain_b a (a ! i) \<noteq> None" using Some by simp
  have q3: "i \<in> set js \<or> r (Suc i) \<le> bs" using row(1) by simp
  have q4: "\<forall>j v. Map.empty j = Some v \<longrightarrow> v \<le> r (Suc i) \<and> v \<le> r (Suc j)" by simp
  have q5: "i \<in> set js \<or> Map.empty i = Some (r (Suc i))" using row(1) by simp
  have "bi' = bj' \<and> (\<forall>m\<le>Suc i. r m \<le> bs')
         \<and> (\<forall>j v. J' j = Some v \<longrightarrow> v \<le> r (Suc i) \<and> v \<le> r (Suc j))
         \<and> J' i = Some (r (Suc i))"
    using inner_loop_diag [where b2j = "chain_b a" and a = a and i = i and J = J and js = js
        and n = "length a" and new = Map.empty and bi = bi and bj = bj and bs = bs
        and new' = J' and bi' = bi' and bj' = bj' and bs' = bs',
        OF ne H1 [unfolded r_def] H2 [unfolded r_def] row(2,3) st(1) st(2) [unfolded r_def]
           q3 [unfolded r_def] q4 [unfolded r_def] q5 [unfolded r_def] il]
    unfolding r_def .
  then have a: "bi' = bj'" "\<forall>m\<le>Suc i. r m \<le> bs'"
    and b: "\<forall>j v. J' j = Some v \<longrightarrow> v \<le> r (Suc i) \<and> v \<le> r (Suc j)"
    and c: "J' i = Some (r (Suc i))" by blast+
  have "j2lenget J' j \<le> r (Suc i) \<and> j2lenget J' j \<le> r j" for j
  proof (cases j)
    case 0
    then show ?thesis by (simp add: j2lenget_def)
  next
    case (Suc j')
    then show ?thesis using b [rule_format, of j'] by (auto simp: j2lenget_def split: option.splits)
  qed
  moreover have "j2lenget J' (Suc i) = r (Suc i)" using c by (simp add: j2lenget_def)
  ultimately show ?thesis using a by blast
qed

lemma outer_loop_diag:
  fixes a :: string
  defines "r \<equiv> indexed_run (chain_b a) a"
  assumes "lo \<le> length a"
    and "\<forall>j. j2lenget J j \<le> r lo \<and> j2lenget J j \<le> r j"
    and "j2lenget J lo = r lo"
    and "bi = bj" "\<forall>m\<le>lo. r m \<le> bs"
    and "foldl (outer_step a (chain_b a) 0 (length a)) (J, (bi, bj, bs)) [lo..<length a]
         = (J', (bi', bj', bs'))"
  shows "bi' = bj'"
  using assms(2-)
proof (induction "length a - lo" arbitrary: lo J bi bj bs)
  case 0
  then show ?case by simp
next
  case (Suc d)
  then have lt: "lo < length a" by simp
  then have upt: "[lo..<length a] = lo # [Suc lo..<length a]" by (simp add: upt_conv_Cons)
  obtain J1 bi1 bj1 bs1 where
    step: "outer_step a (chain_b a) 0 (length a) (J, (bi, bj, bs)) lo = (J1, (bi1, bj1, bs1))"
    by (metis prod_cases3)
  have inv: "bi1 = bj1 \<and> (\<forall>m\<le>Suc lo. r m \<le> bs1)
         \<and> (\<forall>j. j2lenget J1 j \<le> r (Suc lo) \<and> j2lenget J1 j \<le> r j)
         \<and> j2lenget J1 (Suc lo) = r (Suc lo)"
    using outer_step_diag [where a = a and i = lo and J = J and bi = bi and bj = bj and bs = bs
        and J' = J1 and bi' = bi1 and bj' = bj1 and bs' = bs1,
        OF lt Suc.prems(2) [unfolded r_def] Suc.prems(3) [unfolded r_def] Suc.prems(4)
           Suc.prems(5) [unfolded r_def] step]
    unfolding r_def .
  have rest: "foldl (outer_step a (chain_b a) 0 (length a)) (J1, (bi1, bj1, bs1))
                [Suc lo..<length a] = (J', (bi', bj', bs'))"
    using Suc.prems(6) upt step by simp
  have d: "d = length a - Suc lo" using Suc.hyps(2) by simp
  have le: "Suc lo \<le> length a" using lt by simp
  from inv have i1: "\<forall>j. j2lenget J1 j \<le> r (Suc lo) \<and> j2lenget J1 j \<le> r j"
    and i2: "j2lenget J1 (Suc lo) = r (Suc lo)" and i3: "bi1 = bj1"
    and i4: "\<forall>m\<le>Suc lo. r m \<le> bs1" by blast+
  from Suc.hyps(1) [OF d le i1 i2 i3 i4 rest] show ?case .
qed

lemma extend_left_diag:
  "extend_left a a (\<lambda>c. \<not> isbjunk c) 0 0 (i, i, k) = (0, 0, k + i)"
proof (induction i arbitrary: k)
  case 0
  show ?case by (subst extend_left.simps) (simp del: extend_left.simps)
next
  case (Suc i)
  have "extend_left a a (\<lambda>c. \<not> isbjunk c) 0 0 (Suc i, Suc i, k)
        = extend_left a a (\<lambda>c. \<not> isbjunk c) 0 0 (i, i, k + 1)"
    by (subst extend_left.simps) (simp add: isbjunk_def del: extend_left.simps)
  then show ?case by (simp add: Suc.IH del: extend_left.simps)
qed

lemma extend_right_diag:
  "k \<le> n \<Longrightarrow> extend_right a a (\<lambda>c. \<not> isbjunk c) n n (0, 0, k) = (0, 0, n)"
proof (induction "n - k" arbitrary: k)
  case 0
  then have "k = n" by simp
  then show ?case by (subst extend_right.simps) (simp del: extend_right.simps)
next
  case (Suc d)
  then have "k < n" by simp
  then have "extend_right a a (\<lambda>c. \<not> isbjunk c) n n (0, 0, k)
             = extend_right a a (\<lambda>c. \<not> isbjunk c) n n (0, 0, k + 1)"
    by (subst extend_right.simps) (simp add: isbjunk_def del: extend_right.simps)
  moreover have "extend_right a a (\<lambda>c. \<not> isbjunk c) n n (0, 0, k + 1) = (0, 0, n)"
    by (rule Suc.hyps(1)) (use Suc in simp_all)
  ultimately show ?case by (simp del: extend_right.simps)
qed

lemma extend_junk_none:
  "extend_left a b isbjunk alo blo m = m" "extend_right a b isbjunk ahi bhi m = m"
proof -
  obtain i j k where m: "m = (i, j, k)" by (cases m)
  show "extend_left a b isbjunk alo blo m = m"
    unfolding m by (subst extend_left.simps) (simp add: isbjunk_def del: extend_left.simps)
  show "extend_right a b isbjunk ahi bhi m = m"
    unfolding m by (subst extend_right.simps) (simp add: isbjunk_def del: extend_right.simps)
qed

lemma find_longest_match_same:
  "find_longest_match a a (chain_b a) 0 (length a) 0 (length a) = (0, 0, length a)"
proof -
  let ?n = "length a"
  obtain J i j k where
    f: "foldl (outer_step a (chain_b a) 0 ?n) (Map.empty, (0, 0, 0)) [0..<?n] = (J, (i, j, k))"
    by (metis prod_cases3)
  have h1: "\<forall>j'. j2lenget Map.empty j' \<le> indexed_run (chain_b a) a 0
                \<and> j2lenget Map.empty j' \<le> indexed_run (chain_b a) a j'"
    by (simp add: j2lenget_def)
  have h2: "j2lenget Map.empty 0 = indexed_run (chain_b a) a 0" by (simp add: j2lenget_def)
  have h4: "\<forall>m\<le>0. indexed_run (chain_b a) a m \<le> 0" by simp
  have ij: "i = j"
    using outer_loop_diag [where a = a and lo = 0 and J = Map.empty and bi = 0 and bj = 0
        and bs = 0 and J' = J and bi' = i and bj' = j and bs' = k, OF _ h1 h2 refl h4 f]
    by simp
  have "0 \<le> i \<and> (i + k \<le> ?n \<or> (k = 0 \<and> i = 0))"
    using outer_loop_bounds [where alo = 0 and lo = 0 and hi = ?n and ahi = ?n
        and j2len = Map.empty and bi = 0 and bj = 0 and bs = 0 and a = a and b2j = "chain_b a"
        and blo = 0 and bhi = ?n and j2len' = J and bi' = i and bj' = j and bs' = k, OF _ _ _ _ _ f]
    by simp
  then have le: "k + i \<le> ?n" by auto
  have "find_longest_match a a (chain_b a) 0 ?n 0 ?n
        = extend_right a a isbjunk ?n ?n
            (extend_left a a isbjunk 0 0
               (extend_right a a (\<lambda>c. \<not> isbjunk c) ?n ?n
                  (extend_left a a (\<lambda>c. \<not> isbjunk c) 0 0 (i, i, k))))"
    unfolding find_longest_match_def f ij by (simp only: snd_conv)
  also have "\<dots> = (0, 0, ?n)"
    by (simp only: extend_junk_none extend_left_diag extend_right_diag [OF le])
  finally show ?thesis .
qed

lemma matching_blocks_loop_same:
  "matching_blocks_loop a a (chain_b a) [(0, length a, 0, length a)] []
   = (if length a = 0 then [] else [(0, 0, length a)])"
  by (simp add: find_longest_match_same)

lemma get_matching_blocks_same:
  "sum_list (map (\<lambda>(i, j, k). k) (get_matching_blocks a a)) = length a"
  unfolding get_matching_blocks_def matching_blocks_loop_same by simp

lemma fl_pos: "0 < x \<Longrightarrow> 0 < fl x"
  unfolding fl_def by (rule round_to_pos) simp_all

lemma ratio_same: "ratio a a = 1"
proof (cases "length a = 0")
  case True
  then show ?thesis by (simp add: ratio_def calculate_ratio_def)
next
  case False
  define u where "u = fl (of_nat (length a))"
  have "0 < (of_nat (length a) :: rat)" using False by simp
  then have u: "0 < u" unfolding u_def by (rule fl_pos)
  have uu: "fl u = u" by (simp add: u_def)
  have m: "fmul 2 (float_of_int (int (length a))) = 2 * u"
    by (simp add: fmul_def float_of_int_def fl_double uu u_def [symmetric])
  have "(of_int (int (length a + length a)) :: rat) = 2 * of_nat (length a)" by simp
  then have l: "float_of_int (int (length a + length a)) = 2 * u"
    unfolding float_of_int_def u_def by (simp only: fl_double)
  from l have l': "float_of_int (2 * int (length a)) = 2 * u" by simp
  have "calculate_ratio (length a) (length a + length a) = fdiv (2 * u) (2 * u)"
    using False by (simp add: calculate_ratio_def m l')
  also have "\<dots> = 1" using u by (simp add: fdiv_def)
  finally show ?thesis by (simp add: ratio_def get_matching_blocks_same)
qed

lemma startswith_refl: "startswith s s"
  by (induction s) simp_all

lemma str_in_refl: "str_in s s"
  by (cases s) (simp_all add: startswith_refl)

text \<open>
  Claim C10: \<open>calculate_name_similarity\<close> returns exactly 1.0 whenever both inputs
  normalize to the same string, the empty string included: two blank names are scored as
  a perfect match.
\<close>

theorem same_normalized_names_score_one:
  assumes "normalize name1 = normalize name2"
  shows "calculate_name_similarity name1 name2 = 1"
proof -
  have "0 \<le> fl (2 / 10)" by (rule fl_nonneg) simp
  then have "(1 :: rat) \<le> 1 + fl (2 / 10)" by simp
  from fl_mono [OF this] have "1 \<le> fadd 1 (fl (2 / 10))" by (simp add: fadd_def)
  then have "py_min 1 (fadd 1 (fl (2 / 10))) = 1" by (simp add: py_min_def)
  then show ?thesis
    using assms by (simp add: calculate_name_similarity_def ratio_same str_in_refl)
qed


theorem same_normalized_names_score_one_witness:
  "normalize ''   '' = normalize '' '' \<and> normalize '' '' = []
   \<and> calculate_name_similarity ''   '' '' '' = 1"
proof -
  have a: "normalize ''   '' = normalize '' ''" by code_simp
  have b: "normalize '' '' = []" by code_simp
  from same_normalized_names_score_one [OF a] a b show ?thesis by simp
qed

end
